theory Spec2Isabelle
  imports Complex_Main "HOL-Library.Sublist"
begin

section \<open>The date library as the component uses it\<close>

text \<open>
  \<^verbatim>\<open>CRM.jsx\<close> does all of its date arithmetic through the dayjs library: the
  constructor, the \<^verbatim>\<open>year\<close> getter and setter, \<^verbatim>\<open>add\<close>, \<^verbatim>\<open>isAfter\<close>,
  \<^verbatim>\<open>isBefore\<close> and \<^verbatim>\<open>diff\<close>. A dayjs object wraps a JavaScript Date and caches
  its local calendar fields; the model keeps exactly those fields. The local time zone is
  taken to have a constant UTC offset, so that local wall-clock time is a linear time line;
  \<open>tod\<close> is the number of milliseconds since local midnight and stands for the cached
  hour, minute, second and millisecond. Months are numbered from 0, as in JavaScript.
\<close>

record datetime =
  year :: int
  month :: int
  date :: int
  tod :: int

text \<open>An object made from a string that does not parse wraps an Invalid Date.\<close>

datatype dayjs = Invalid | Valid datetime

text \<open>A JavaScript number as far as the component sees one: an integer or NaN.\<close>

datatype jsnum = Num int | NaN

datatype timeunit = Day | Month | Year

definition MILLISECONDS_A_DAY :: int where
  "MILLISECONDS_A_DAY = 86400000"

definition isLeapYear :: "int \<Rightarrow> bool" where
  "isLeapYear y = ((y mod 4 = 0 \<and> y mod 100 \<noteq> 0) \<or> y mod 400 = 0)"

definition daysInMonth :: "int \<Rightarrow> int \<Rightarrow> int" where
  "daysInMonth y m =
     (if m = 1 then (if isLeapYear y then 29 else 28)
      else if m = 3 \<or> m = 5 \<or> m = 8 \<or> m = 10 then 30
      else 31)"

text \<open>Days of the year \<open>y\<close> that lie before the first of month \<open>m\<close>.\<close>

definition days_before_month :: "int \<Rightarrow> int \<Rightarrow> int" where
  "days_before_month y m =
     (let l = (if isLeapYear y then 1 else 0) in
      if m \<le> 0 then 0
      else if m = 1 then 31
      else if m = 2 then 59 + l
      else if m = 3 then 90 + l
      else if m = 4 then 120 + l
      else if m = 5 then 151 + l
      else if m = 6 then 181 + l
      else if m = 7 then 212 + l
      else if m = 8 then 243 + l
      else if m = 9 then 273 + l
      else if m = 10 then 304 + l
      else 334 + l)"

text \<open>Days from 1 January 1970 to 1 January of the year \<open>y\<close> (proleptic Gregorian).\<close>

definition days_before_year :: "int \<Rightarrow> int" where
  "days_before_year y =
     365 * (y - 1970) + ((y - 1) div 4 - (y - 1) div 100 + (y - 1) div 400) - 477"

definition days_from_civil :: "int \<Rightarrow> int \<Rightarrow> int \<Rightarrow> int" where
  "days_from_civil y m d = days_before_year y + days_before_month y m + (d - 1)"

text \<open>
  The time value of a Date, in milliseconds of local time since 1970-01-01T00:00. With a
  constant UTC offset it differs from JavaScript's UTC time value by that constant, which
  no comparison and no difference sees.
\<close>

definition valueOf :: "datetime \<Rightarrow> int" where
  "valueOf t = days_from_civil (year t) (month t) (date t) * MILLISECONDS_A_DAY + tod t"

text \<open>The field combinations a Date can hold.\<close>

definition valid_datetime :: "datetime \<Rightarrow> bool" where
  "valid_datetime t =
     (0 \<le> month t \<and> month t < 12 \<and> 1 \<le> date t \<and> date t \<le> daysInMonth (year t) (month t)
      \<and> 0 \<le> tod t \<and> tod t < MILLISECONDS_A_DAY)"

text \<open>
  \<^verbatim>\<open>Date.prototype.setDate\<close> with a day number beyond the end of the month rolls over
  into the following months. Only this forward direction is used by the component
  (\<^verbatim>\<open>add(30, 'day')\<close>).
\<close>

function rollover :: "int \<Rightarrow> int \<Rightarrow> int \<Rightarrow> int \<times> int \<times> int" where
  "rollover y m d =
     (if daysInMonth y m < d
      then (if m = 11 then rollover (y + 1) 0 (d - daysInMonth y m)
            else rollover y (m + 1) (d - daysInMonth y m))
      else (y, m, d))"
  by pat_completeness auto
termination
  by (relation "measure (\<lambda>(y, m, d). nat d)") (auto simp: daysInMonth_def split: if_splits)

declare rollover.simps [simp del]

text \<open>
  The private \<^verbatim>\<open>$set\<close> of dayjs for the units year and month: the day is set to 1, the
  year or month is written with \<^verbatim>\<open>setFullYear\<close> or \<^verbatim>\<open>setMonth\<close> (a month index
  outside 0..11 carries into the year), and the day is restored as
  \<^verbatim>\<open>Math.min(this.$D, date.daysInMonth())\<close>.
\<close>

definition set_year_fields :: "datetime \<Rightarrow> int \<Rightarrow> datetime" where
  "set_year_fields t y =
     t\<lparr>year := y, date := min (date t) (daysInMonth y (month t))\<rparr>"

definition set_month_fields :: "datetime \<Rightarrow> int \<Rightarrow> datetime" where
  "set_month_fields t m =
     (let y' = year t + m div 12; m' = m mod 12
      in t\<lparr>year := y', month := m', date := min (date t) (daysInMonth y' m')\<rparr>)"

definition set_date_fields :: "datetime \<Rightarrow> int \<Rightarrow> datetime" where
  "set_date_fields t d =
     (case rollover (year t) (month t) d of
        (y', m', d') \<Rightarrow> t\<lparr>year := y', month := m', date := d'\<rparr>)"

text \<open>\<^verbatim>\<open>birthday.year(n)\<close>: the setter. On an Invalid Date the result is invalid.\<close>

fun year_set :: "dayjs \<Rightarrow> int \<Rightarrow> dayjs" where
  "year_set Invalid y = Invalid"
| "year_set (Valid t) y = Valid (set_year_fields t y)"

fun add :: "dayjs \<Rightarrow> int \<Rightarrow> timeunit \<Rightarrow> dayjs" where
  "add Invalid n u = Invalid"
| "add (Valid t) n Day = Valid (set_date_fields t (date t + n))"
| "add (Valid t) n Month = Valid (set_month_fields t (month t + n))"
| "add (Valid t) n Year = Valid (set_year_fields t (year t + n))"

text \<open>Comparisons are on time values; any comparison with NaN is false.\<close>

fun isAfter :: "dayjs \<Rightarrow> dayjs \<Rightarrow> bool" where
  "isAfter (Valid a) (Valid b) = (valueOf b < valueOf a)"
| "isAfter _ _ = False"

fun isBefore :: "dayjs \<Rightarrow> dayjs \<Rightarrow> bool" where
  "isBefore (Valid a) (Valid b) = (valueOf a < valueOf b)"
| "isBefore _ _ = False"

text \<open>
  \<^verbatim>\<open>Utils.a\<close> (absFloor): \<^verbatim>\<open>n < 0 ? Math.ceil(n) || 0 : Math.floor(n)\<close>, rounding
  towards zero. Quotients are exact rationals here, where JavaScript has doubles.
\<close>

definition absFloor :: "rat \<Rightarrow> int" where
  "absFloor n = (if n < 0 then \<lceil>n\<rceil> else \<lfloor>n\<rfloor>)"

text \<open>
  \<^verbatim>\<open>Utils.m\<close> (monthDiff), on valid dates. The library's function calls itself with the
  arguments swapped when \<^verbatim>\<open>a.date() < b.date()\<close>; the swapped call cannot swap again,
  so the body after the test is \<open>monthDiff_anchor\<close>.
\<close>

definition monthDiff_anchor :: "datetime \<Rightarrow> datetime \<Rightarrow> rat" where
  "monthDiff_anchor a b =
     (let wholeMonthDiff = (year b - year a) * 12 + (month b - month a);
          anchor = set_month_fields a (month a + wholeMonthDiff);
          c = (valueOf b - valueOf anchor < 0);
          anchor2 = set_month_fields a (month a + (wholeMonthDiff + (if c then - 1 else 1)))
      in - (of_int wholeMonthDiff
            + of_int (valueOf b - valueOf anchor)
              / of_int (if c then valueOf anchor - valueOf anchor2
                        else valueOf anchor2 - valueOf anchor)))"

definition monthDiff :: "datetime \<Rightarrow> datetime \<Rightarrow> rat" where
  "monthDiff a b =
     (if date a < date b then - monthDiff_anchor b a else monthDiff_anchor a b)"

text \<open>
  \<^verbatim>\<open>this.diff(that, unit)\<close> without the float flag. For days the library divides the
  difference of the local times by the length of a day; for months and years it goes
  through \<open>monthDiff\<close>. With an Invalid Date on either side the day difference is NaN, and
  \<open>monthDiff\<close> ends in \<^verbatim>\<open>NaN || 0\<close>, which is 0.
\<close>

fun diff :: "dayjs \<Rightarrow> dayjs \<Rightarrow> timeunit \<Rightarrow> jsnum" where
  "diff (Valid a) (Valid b) Day =
     Num (absFloor (of_int (valueOf a - valueOf b) / of_int MILLISECONDS_A_DAY))"
| "diff (Valid a) (Valid b) Month = Num (absFloor (monthDiff a b))"
| "diff (Valid a) (Valid b) Year = Num (absFloor (monthDiff a b / 12))"
| "diff _ _ Day = NaN"
| "diff _ _ _ = Num 0"

text \<open>
  \<^verbatim>\<open>dayjs('YYYY-MM-DD')\<close> for a well-formed date string: local midnight of that day.
  The month of the string counts from 1.
\<close>

definition dayjs_ymd :: "int \<Rightarrow> int \<Rightarrow> int \<Rightarrow> dayjs" where
  "dayjs_ymd y m d = Valid \<lparr>year = y, month = m - 1, date = d, tod = 0\<rparr>"

text \<open>
  \<^verbatim>\<open>dayjs(string)\<close> for any string of the form YYYY-MM-DD, whatever the numbers in
  its fields. The library matches the string against its parse pattern (four digits, one
  or two digits, up to two digits) and passes the numbers to the Date constructor as
  \<^verbatim>\<open>new Date(y, m - 1, d)\<close>. The constructor takes a year from 0 to 99 as 1900 plus that
  year, carries a month index outside 0..11 into the year, and counts the day from the
  first of that month, forwards beyond its end and, for day 0, back to the last day of the
  month before. An empty day field is read as 1.
\<close>

definition Date_year :: "int \<Rightarrow> int" where
  "Date_year y = (if 0 \<le> y \<and> y \<le> 99 then 1900 + y else y)"

definition dayjs_parse :: "int \<Rightarrow> int \<Rightarrow> int \<Rightarrow> dayjs" where
  "dayjs_parse y m d =
     (let first = set_month_fields \<lparr>year = Date_year y, month = 0, date = 1, tod = 0\<rparr> (m - 1)
      in if d < 1
         then (let prev = set_month_fields first (month first - 1)
               in Valid (prev\<lparr>date := daysInMonth (year prev) (month prev) + d\<rparr>))
         else Valid (set_date_fields first d))"


section \<open>The component\<close>

text \<open>
  A person record of the store. The source keeps \<open>birthday\<close> as the string the store
  returned and wraps it with \<^verbatim>\<open>dayjs(person.birthday)\<close> at every use; parsing is the
  library's, so the record carries the object that the wrapping yields.
\<close>

record person =
  person_id :: string
  name :: string
  birthday :: dayjs
  email :: string
  phone :: string
  person_notes :: string

text \<open>
  The three date functions read the clock with \<^verbatim>\<open>dayjs()\<close>; the reading is the
  parameter \<open>now\<close>, always a valid date.
\<close>

definition getUpcomingBirthdays :: "person list \<Rightarrow> datetime \<Rightarrow> person list" where
  "getUpcomingBirthdays people now =
     (let today = Valid now;
          nextMonth = add today 30 Day
      in filter (\<lambda>person.
           let birthday' = birthday person;
               thisYearBirthday = year_set birthday' (year now);
               nextYearBirthday = year_set birthday' (year now + 1)
           in (isAfter thisYearBirthday today \<and> isBefore thisYearBirthday nextMonth)
              \<or> (isAfter nextYearBirthday today \<and> isBefore nextYearBirthday nextMonth))
         people)"

definition calculateAge :: "dayjs \<Rightarrow> datetime \<Rightarrow> jsnum" where
  "calculateAge birthday' now = diff (Valid now) birthday' Year"

definition getDaysUntilBirthday :: "dayjs \<Rightarrow> datetime \<Rightarrow> jsnum" where
  "getDaysUntilBirthday birthday' now =
     (let today = Valid now;
          thisYearBirthday = year_set birthday' (year now);
          nextYearBirthday = year_set birthday' (year now + 1)
      in if isAfter thisYearBirthday today
         then diff thisYearBirthday today Day
         else diff nextYearBirthday today Day)"

text \<open>
  The component's state (the \<^verbatim>\<open>useState\<close> cells) and what its handlers do to the
  outside: calls of the person store, named by endpoint, and console output. The store
  itself (\<^verbatim>\<open>../entities/Person\<close>) is outside the component, so the settled result of
  \<^verbatim>\<open>await Person.list()\<close> is a parameter: the promise rejects, or it is fulfilled with
  a response.
\<close>

record response =
  success :: bool
  data :: "person list"

datatype 'a settled = Rejected | Fulfilled 'a

datatype effect = StoreCall string | ConsoleLog string string | ConsoleError string

record crm_state =
  people :: "person list"
  loading :: bool
  modalVisible :: bool
  editingPerson :: "person option"

definition loadPeople :: "response settled \<Rightarrow> crm_state \<Rightarrow> crm_state \<times> effect list" where
  "loadPeople outcome s =
     (let s1 = s\<lparr>loading := True\<rparr>;
          (s2, logged) =
            (case outcome of
               Fulfilled response' \<Rightarrow>
                 (if success response' then s1\<lparr>people := data response'\<rparr> else s1, [])
             | Rejected \<Rightarrow> (s1, [ConsoleError ''Failed to load people:'']))
      in (s2\<lparr>loading := False\<rparr>, StoreCall ''list'' # logged))"

text \<open>
  \<^verbatim>\<open>handleDelete\<close> logs and calls \<^verbatim>\<open>loadPeople()\<close>. Neither statement of its
  \<^verbatim>\<open>try\<close> block throws, so the \<^verbatim>\<open>catch\<close> branch has no run.
\<close>

definition handleDelete ::
  "string \<Rightarrow> response settled \<Rightarrow> crm_state \<Rightarrow> crm_state \<times> effect list" where
  "handleDelete id' outcome s =
     (let logged = ConsoleLog ''Delete functionality would be implemented here for ID:'' id';
          (s', effects) = loadPeople outcome s
      in (s', logged # effects))"

text \<open>
  The records held by the store after a run of effects. What an endpoint does to the store
  is the parameter \<open>sem\<close>; console output does nothing to it.
\<close>

fun store_after :: "(string \<Rightarrow> 'st \<Rightarrow> 'st) \<Rightarrow> effect list \<Rightarrow> 'st \<Rightarrow> 'st" where
  "store_after sem [] st = st"
| "store_after sem (StoreCall endpoint # es) st = store_after sem es (sem endpoint st)"
| "store_after sem (e # es) st = store_after sem es st"

text \<open>
  How a call of one of the date functions ends: with a value, or with an exception. The
  bodies have no \<^verbatim>\<open>throw\<close>, and the dayjs calls they make return on every
  argument (an Invalid Date gives NaN or \<open>false\<close>, not an exception), so every call
  ends with a value.
\<close>

text \<open>The one error the specification names. The source declares and raises none.\<close>

datatype error = InvalidDateError

definition calculateAge_call :: "dayjs \<Rightarrow> datetime \<Rightarrow> error + jsnum" where
  "calculateAge_call birthday' now = Inr (calculateAge birthday' now)"

definition getDaysUntilBirthday_call :: "dayjs \<Rightarrow> datetime \<Rightarrow> error + jsnum" where
  "getDaysUntilBirthday_call birthday' now = Inr (getDaysUntilBirthday birthday' now)"

definition getUpcomingBirthdays_call :: "person list \<Rightarrow> datetime \<Rightarrow> error + person list" where
  "getUpcomingBirthdays_call ps now = Inr (getUpcomingBirthdays ps now)"

section \<open>The specification's wording\<close>

text \<open>
  The specification's \<open>nextOccurrence\<close>, \<open>daysUntil\<close> and \<open>upcoming\<close>, for a birthday
  that is a calendar date. \<open>now\<close> is truncated to its calendar date, which is its day
  number. The next occurrence is this year's when that is after now or falls on the
  calendar date of now, and next year's otherwise; \<open>daysUntil\<close> is the whole-day
  difference from the date of now to it, 0 exactly on the birthday; \<open>upcoming\<close> keeps,
  in input order, every person whose \<open>daysUntil\<close> is in the inclusive range from 0 to
  the window. The occurrence of a month and day in a year is taken as the year setter gives
  it, which is the engine's rule for 29 February.
\<close>

definition day_number :: "datetime \<Rightarrow> int" where
  "day_number t = days_from_civil (year t) (month t) (date t)"

definition nextOccurrence :: "datetime \<Rightarrow> datetime \<Rightarrow> datetime" where
  "nextOccurrence b now =
     (let thisYear = set_year_fields b (year now)
      in if day_number now \<le> day_number thisYear then thisYear
         else set_year_fields b (year now + 1))"

definition daysUntil :: "datetime \<Rightarrow> datetime \<Rightarrow> int" where
  "daysUntil b now = day_number (nextOccurrence b now) - day_number now"

text \<open>For a person: no number of days when the birthday is no date.\<close>

definition person_daysUntil :: "person \<Rightarrow> datetime \<Rightarrow> int option" where
  "person_daysUntil p now =
     (case birthday p of Valid b \<Rightarrow> Some (daysUntil b now) | Invalid \<Rightarrow> None)"

definition upcoming :: "person list \<Rightarrow> datetime \<Rightarrow> int \<Rightarrow> person list" where
  "upcoming ps now windowDays =
     filter (\<lambda>p. case person_daysUntil p now of
                   Some d \<Rightarrow> 0 \<le> d \<and> d \<le> windowDays | None \<Rightarrow> False) ps"


text \<open>
  The contract of \<open>calculateAge\<close> as the specification words it: the difference of the
  years, less one when the month and day of \<open>now\<close> precede the month and day of the
  birthday.
\<close>

definition month_day_precedes :: "int \<times> int \<Rightarrow> int \<times> int \<Rightarrow> bool" where
  "month_day_precedes p q = (fst p < fst q \<or> (fst p = fst q \<and> snd p < snd q))"

definition completed_birthdays :: "datetime \<Rightarrow> datetime \<Rightarrow> int" where
  "completed_birthdays b now =
     year now - year b
     - (if month_day_precedes (month now, date now) (month b, date b) then 1 else 0)"

text \<open>A dayjs object as the constructor can return it: invalid, or holding a valid date.\<close>

definition valid_dayjs :: "dayjs \<Rightarrow> bool" where
  "valid_dayjs d = (case d of Invalid \<Rightarrow> True | Valid t \<Rightarrow> valid_datetime t)"

text \<open>
  A birthday as the form stores it and the constructor reads it back: invalid, or a valid
  date at local midnight.
\<close>

definition date_only :: "dayjs \<Rightarrow> bool" where
  "date_only d = (case d of Invalid \<Rightarrow> True | Valid t \<Rightarrow> valid_datetime t \<and> tod t = 0)"


section \<open>Auxiliary notions for the proofs\<close>

text \<open>A number, not NaN, from 0 to \<open>w\<close>.\<close>

definition within_days :: "int \<Rightarrow> jsnum \<Rightarrow> bool" where
  "within_days w n = (case n of Num d \<Rightarrow> 0 \<le> d \<and> d \<le> w | NaN \<Rightarrow> False)"

text \<open>Months counted on one axis: the index of a month, its first day and its length.\<close>

definition month_start :: "int \<Rightarrow> int" where
  "month_start k = days_from_civil (k div 12) (k mod 12) 1"

definition month_len :: "int \<Rightarrow> int" where
  "month_len k = daysInMonth (k div 12) (k mod 12)"

definition month_index :: "datetime \<Rightarrow> int" where
  "month_index t = year t * 12 + month t"

text \<open>
  The time value of \<open>a\<close> moved to the month with index \<open>k\<close>, its day clamped to the
  length of that month: what setting the month of \<open>a\<close> gives.
\<close>

definition shifted_value :: "datetime \<Rightarrow> int \<Rightarrow> int" where
  "shifted_value a k =
     (month_start k + min (date a) (month_len k) - 1) * MILLISECONDS_A_DAY + tod a"

section \<open>The calendar\<close>

lemma daysInMonth_bounds: "28 \<le> daysInMonth y m \<and> daysInMonth y m \<le> 31"
  by (simp add: daysInMonth_def)

lemma div_step:
  fixes y n :: int
  assumes "0 < n"
  shows "y div n = (y - 1) div n + (if y mod n = 0 then 1 else 0)"
proof -
  define q where "q = (y - 1) div n"
  define r where "r = (y - 1) mod n"
  have y: "y = n * q + r + 1" and r: "0 \<le> r" "r < n"
    using assms by (simp_all add: q_def r_def)
  show ?thesis
  proof (cases "r + 1 = n")
    case True
    then have "y = n * (q + 1) + 0" using y by (simp add: algebra_simps)
    then have "y div n = q + 1" "y mod n = 0"
      using assms by (metis int_div_pos_eq order_refl, metis int_mod_pos_eq order_refl)
    then show ?thesis by (simp add: q_def)
  next
    case False
    then have "y = n * q + (r + 1)" "0 \<le> r + 1" "r + 1 < n" using y r by simp_all
    then have "y div n = q" "y mod n = r + 1"
      by (metis int_div_pos_eq, metis int_mod_pos_eq)
    then show ?thesis using r by (simp add: q_def)
  qed
qed

lemma days_before_year_Suc:
  "days_before_year (y + 1) = days_before_year y + (if isLeapYear y then 366 else 365)"
proof -
  define p4 p100 p400 where "p4 = (y - 1) div 4" and "p100 = (y - 1) div 100"
    and "p400 = (y - 1) div 400"
  define q4 q100 q400 where "q4 = y div 4" and "q100 = y div 100" and "q400 = y div 400"
  have a: "q4 = p4 + (if y mod 4 = 0 then 1 else 0)"
    unfolding q4_def p4_def by (rule div_step) simp
  have b: "q100 = p100 + (if y mod 100 = 0 then 1 else 0)"
    unfolding q100_def p100_def by (rule div_step) simp
  have c: "q400 = p400 + (if y mod 400 = 0 then 1 else 0)"
    unfolding q400_def p400_def by (rule div_step) simp
  have d: "y mod 400 = 0 \<Longrightarrow> y mod 100 = 0"
    using mod_mod_cancel [of 100 400 y] by simp
  have e: "y mod 100 = 0 \<Longrightarrow> y mod 4 = 0"
    using mod_mod_cancel [of 4 100 y] by simp
  have l: "days_before_year (y + 1) = 365 * (y + 1 - 1970) + (q4 - q100 + q400) - 477"
    by (simp add: days_before_year_def q4_def q100_def q400_def)
  have r: "days_before_year y = 365 * (y - 1970) + (p4 - p100 + p400) - 477"
    by (simp add: days_before_year_def p4_def p100_def p400_def)
  show ?thesis
  proof (cases "isLeapYear y")
    case True
    then have "q4 - q100 + q400 = p4 - p100 + p400 + 1"
      using a b c d e unfolding isLeapYear_def by (auto split: if_splits)
    then show ?thesis using True l r by simp
  next
    case False
    then have "q4 - q100 + q400 = p4 - p100 + p400"
      using a b c d e unfolding isLeapYear_def by (auto split: if_splits)
    then show ?thesis using False l r by simp
  qed
qed

lemma days_before_month_Suc:
  assumes "0 \<le> m" "m < 11"
  shows "days_before_month y (m + 1) = days_before_month y m + daysInMonth y m"
proof -
  have "m = 0 \<or> m = 1 \<or> m = 2 \<or> m = 3 \<or> m = 4 \<or> m = 5 \<or> m = 6 \<or> m = 7 \<or> m = 8
      \<or> m = 9 \<or> m = 10"
    using assms by arith
  then show ?thesis
    unfolding days_before_month_def daysInMonth_def Let_def by (elim disjE) simp_all
qed

lemma days_before_month_last:
  "days_before_month y 11 + daysInMonth y 11 = (if isLeapYear y then 366 else 365)"
  unfolding days_before_month_def daysInMonth_def Let_def by simp

lemma month_start_Suc: "month_start (k + 1) = month_start k + month_len k"
proof -
  define y m where "y = k div 12" and "m = k mod 12"
  have m: "0 \<le> m" "m < 12" by (simp_all add: m_def)
  have k: "k = 12 * y + m" by (simp add: y_def m_def)
  have ms: "month_start k = days_before_year y + days_before_month y m"
    and ml: "month_len k = daysInMonth y m"
    by (simp_all add: month_start_def month_len_def days_from_civil_def y_def m_def)
  show ?thesis
  proof (cases "m = 11")
    case True
    have "k + 1 = 12 * (y + 1) + 0" using k True by simp
    then have "(k + 1) div 12 = y + 1" and "(k + 1) mod 12 = 0"
      using int_div_pos_eq [of "k + 1" 12 "y + 1" 0] int_mod_pos_eq [of "k + 1" 12 "y + 1" 0]
      by simp_all
    then have "month_start (k + 1) = days_before_year (y + 1)"
      by (simp add: month_start_def days_from_civil_def days_before_month_def)
    then show ?thesis
      using True days_before_month_last [of y] days_before_year_Suc [of y] ms ml by simp
  next
    case False
    have "k + 1 = 12 * y + (m + 1)" using k by simp
    then have "(k + 1) div 12 = y" and "(k + 1) mod 12 = m + 1"
      using int_div_pos_eq [of "k + 1" 12 y "m + 1"] int_mod_pos_eq [of "k + 1" 12 y "m + 1"]
        m False by simp_all
    then have "month_start (k + 1) = days_before_year y + days_before_month y (m + 1)"
      by (simp add: month_start_def days_from_civil_def)
    then show ?thesis
      using days_before_month_Suc [of m y] m False ms ml by simp
  qed
qed

lemma month_len_bounds: "28 \<le> month_len k \<and> month_len k \<le> 31"
  by (simp add: month_len_def daysInMonth_bounds)

lemma month_start_mono_aux: "month_start j + month_len j \<le> month_start (j + 1 + int n)"
proof (induction n)
  case 0
  then show ?case by (simp add: month_start_Suc)
next
  case (Suc n)
  have "month_start (j + 1 + int (Suc n)) = month_start (j + 1 + int n) + month_len (j + 1 + int n)"
    using month_start_Suc [of "j + 1 + int n"] by (simp add: add.assoc)
  then show ?case using Suc month_len_bounds [of "j + 1 + int n"] by linarith
qed

lemma month_start_mono: "j < k \<Longrightarrow> month_start j + month_len j \<le> month_start k"
  using month_start_mono_aux [of j "nat (k - j - 1)"] by simp

lemma valueOf_month_index:
  "0 \<le> month t \<Longrightarrow> month t < 12 \<Longrightarrow>
   valueOf t = (month_start (month_index t) + date t - 1) * MILLISECONDS_A_DAY + tod t"
proof -
  assume "0 \<le> month t" "month t < 12"
  then have "month_index t div 12 = year t" "month_index t mod 12 = month t"
    using int_div_pos_eq [of "month_index t" 12 "year t" "month t"]
      int_mod_pos_eq [of "month_index t" 12 "year t" "month t"]
    unfolding month_index_def by simp_all
  then show ?thesis
    by (simp add: valueOf_def month_start_def days_from_civil_def)
qed

lemma month_len_index:
  "0 \<le> month t \<Longrightarrow> month t < 12 \<Longrightarrow> month_len (month_index t) = daysInMonth (year t) (month t)"
proof -
  assume "0 \<le> month t" "month t < 12"
  then have "month_index t div 12 = year t" "month_index t mod 12 = month t"
    using int_div_pos_eq [of "month_index t" 12 "year t" "month t"]
      int_mod_pos_eq [of "month_index t" 12 "year t" "month t"]
    unfolding month_index_def by simp_all
  then show ?thesis by (simp add: month_len_def)
qed

lemma valueOf_less_of_month_index:
  assumes "valid_datetime a" "valid_datetime b" "month_index a < month_index b"
  shows "valueOf a < valueOf b"
proof -
  have a: "valueOf a = (month_start (month_index a) + date a - 1) * MILLISECONDS_A_DAY + tod a"
    and b: "valueOf b = (month_start (month_index b) + date b - 1) * MILLISECONDS_A_DAY + tod b"
    using assms by (simp_all add: valid_datetime_def valueOf_month_index)
  have "month_start (month_index a) + month_len (month_index a) \<le> month_start (month_index b)"
    using assms(3) by (rule month_start_mono)
  moreover have "date a \<le> month_len (month_index a)"
    using assms(1) by (simp add: valid_datetime_def month_len_index)
  ultimately have "month_start (month_index a) + date a - 1 + 1 \<le> month_start (month_index b) + date b - 1"
    using assms(2) by (simp add: valid_datetime_def)
  then have "(month_start (month_index a) + date a - 1 + 1) * MILLISECONDS_A_DAY
      \<le> (month_start (month_index b) + date b - 1) * MILLISECONDS_A_DAY"
    by (simp add: MILLISECONDS_A_DAY_def)
  then show ?thesis
    using assms(1,2) unfolding a b valid_datetime_def by (simp add: algebra_simps)
qed

lemma absFloor_of_int_div:
  fixes x d :: int
  assumes "0 \<le> x" "0 < d"
  shows "absFloor (of_int x / of_int d) = x div d"
proof -
  have "(0::rat) \<le> of_int x / of_int d" using assms by simp
  then show ?thesis by (simp add: absFloor_def floor_divide_of_int_eq)
qed

lemma days_from_civil_month_end:
  assumes "0 \<le> m" "m < 12"
  shows "days_from_civil y m (daysInMonth y m + d)
       = (if m = 11 then days_from_civil (y + 1) 0 d else days_from_civil y (m + 1) d)"
proof (cases "m = 11")
  case True
  then show ?thesis
    using days_before_month_last [of y] days_before_year_Suc [of y]
    by (simp add: days_from_civil_def days_before_month_def)
next
  case False
  then show ?thesis
    using days_before_month_Suc [of m y] assms by (simp add: days_from_civil_def)
qed

lemma rollover_correct:
  "0 \<le> m \<Longrightarrow> m < 12 \<Longrightarrow> 1 \<le> d \<Longrightarrow> rollover y m d = (y', m', d') \<Longrightarrow>
   0 \<le> m' \<and> m' < 12 \<and> 1 \<le> d' \<and> d' \<le> daysInMonth y' m'
   \<and> days_from_civil y' m' d' = days_from_civil y m d"
proof (induction y m d rule: rollover.induct)
  case (1 y m d)
  show ?case
  proof (cases "daysInMonth y m < d")
    case False
    then show ?thesis using "1.prems" by (simp add: rollover.simps [of y m d])
  next
    case over: True
    have eq: "days_from_civil y m d
       = (if m = 11 then days_from_civil (y + 1) 0 (d - daysInMonth y m)
          else days_from_civil y (m + 1) (d - daysInMonth y m))"
      using days_from_civil_month_end [of m y "d - daysInMonth y m"] "1.prems" by simp
    have unf: "rollover y m d
       = (if m = 11 then rollover (y + 1) 0 (d - daysInMonth y m)
          else rollover y (m + 1) (d - daysInMonth y m))"
      using over by (subst rollover.simps) simp
    have pos: "1 \<le> d - daysInMonth y m" using over by simp
    show ?thesis
    proof (cases "m = 11")
      case True
      then have "rollover (y + 1) 0 (d - daysInMonth y m) = (y', m', d')"
        using unf "1.prems"(4) by simp
      then have "0 \<le> m' \<and> m' < 12 \<and> 1 \<le> d' \<and> d' \<le> daysInMonth y' m'
          \<and> days_from_civil y' m' d' = days_from_civil (y + 1) 0 (d - daysInMonth y m)"
        using "1.IH"(1) [OF over True] pos by simp
      then show ?thesis using eq True by simp
    next
      case False
      then have "rollover y (m + 1) (d - daysInMonth y m) = (y', m', d')"
        using unf "1.prems"(4) by simp
      moreover have "0 \<le> m + 1" "m + 1 < 12" using "1.prems"(1,2) False by simp_all
      ultimately have "0 \<le> m' \<and> m' < 12 \<and> 1 \<le> d' \<and> d' \<le> daysInMonth y' m'
          \<and> days_from_civil y' m' d' = days_from_civil y (m + 1) (d - daysInMonth y m)"
        using "1.IH"(2) [OF over False] pos by simp
      then show ?thesis using eq False by simp
    qed
  qed
qed

lemma add_day_value:
  assumes "valid_datetime t" "0 \<le> n"
  shows "\<exists>t'. add (Valid t) n Day = Valid t' \<and> valid_datetime t'
         \<and> valueOf t' = valueOf t + n * MILLISECONDS_A_DAY"
proof -
  obtain y' m' d' where r: "rollover (year t) (month t) (date t + n) = (y', m', d')"
    by (metis prod_cases3)
  have "0 \<le> m' \<and> m' < 12 \<and> 1 \<le> d' \<and> d' \<le> daysInMonth y' m'
   \<and> days_from_civil y' m' d' = days_from_civil (year t) (month t) (date t + n)"
    using assms r by (intro rollover_correct) (simp_all add: valid_datetime_def)
  moreover have "days_from_civil (year t) (month t) (date t + n)
      = days_from_civil (year t) (month t) (date t) + n"
    by (simp add: days_from_civil_def)
  ultimately show ?thesis
    using assms(1) r
    by (simp add: set_date_fields_def valid_datetime_def valueOf_def algebra_simps)
qed

lemma set_year_fields_valid:
  "valid_datetime t \<Longrightarrow> valid_datetime (set_year_fields t y)"
  using daysInMonth_bounds [of y "month t"]
  by (simp add: valid_datetime_def set_year_fields_def)

lemma set_year_fields_index:
  "month_index (set_year_fields t y) = y * 12 + month t"
  by (simp add: month_index_def set_year_fields_def)

lemma next_year_after_this:
  assumes "valid_datetime b"
  shows "valueOf (set_year_fields b y) < valueOf (set_year_fields b (y + 1))"
  using assms
  by (intro valueOf_less_of_month_index set_year_fields_valid) (simp_all add: set_year_fields_index)

lemma next_year_after_now:
  assumes "valid_datetime b" "valid_datetime now"
  shows "valueOf now < valueOf (set_year_fields b (year now + 1))"
  using assms
  by (intro valueOf_less_of_month_index set_year_fields_valid)
     (simp_all add: set_year_fields_def month_index_def valid_datetime_def)

lemmas calendar_defs = set_year_fields_def valueOf_def days_from_civil_def days_before_year_def
  days_before_month_def daysInMonth_def isLeapYear_def MILLISECONDS_A_DAY_def

lemma MILLISECONDS_A_DAY_pos: "0 < MILLISECONDS_A_DAY"
  by (simp add: MILLISECONDS_A_DAY_def)

section \<open>Day differences and the 30-day test\<close>

lemma days_window:
  fixes x :: int
  assumes "0 < x"
  shows "(0 \<le> x div MILLISECONDS_A_DAY \<and> x div MILLISECONDS_A_DAY \<le> 29)
         \<longleftrightarrow> x < 30 * MILLISECONDS_A_DAY"
  using assms unfolding MILLISECONDS_A_DAY_def by auto

lemma diff_day_pos:
  assumes "valueOf b < valueOf a"
  shows "diff (Valid a) (Valid b) Day = Num ((valueOf a - valueOf b) div MILLISECONDS_A_DAY)"
  using assms absFloor_of_int_div [of "valueOf a - valueOf b" MILLISECONDS_A_DAY]
    MILLISECONDS_A_DAY_pos
  by (simp del: of_int_diff)

lemma getDaysUntilBirthday_valid:
  assumes "valid_datetime b" "valid_datetime now"
  shows "getDaysUntilBirthday (Valid b) now
       = Num ((valueOf (if valueOf now < valueOf (set_year_fields b (year now))
                        then set_year_fields b (year now)
                        else set_year_fields b (year now + 1)) - valueOf now)
              div MILLISECONDS_A_DAY)"
  using next_year_after_now [OF assms]
  by (simp add: getDaysUntilBirthday_def diff_day_pos del: diff.simps)

lemma upcoming_test:
  assumes "valid_dayjs b" "valid_datetime now"
  shows "((isAfter (year_set b (year now)) (Valid now)
           \<and> isBefore (year_set b (year now)) (add (Valid now) 30 Day))
          \<or> (isAfter (year_set b (year now + 1)) (Valid now)
           \<and> isBefore (year_set b (year now + 1)) (add (Valid now) 30 Day)))
         \<longleftrightarrow> within_days 29 (getDaysUntilBirthday b now)"
proof (cases b)
  case Invalid
  then show ?thesis by (simp add: getDaysUntilBirthday_def within_days_def)
next
  case (Valid t)
  then have t: "valid_datetime t" using assms(1) by (simp add: valid_dayjs_def)
  obtain m where m: "add (Valid now) 30 Day = Valid m"
    "valueOf m = valueOf now + 30 * MILLISECONDS_A_DAY"
    using add_day_value [OF assms(2), of 30] by auto
  have n1: "valueOf (set_year_fields t (year now)) < valueOf (set_year_fields t (year now + 1))"
    using t by (rule next_year_after_this)
  have n2: "valueOf now < valueOf (set_year_fields t (year now + 1))"
    using t assms(2) by (rule next_year_after_now)
  define T N n where "T = valueOf (set_year_fields t (year now))"
    and "N = valueOf (set_year_fields t (year now + 1))" and "n = valueOf now"
  have lhs: "((isAfter (year_set b (year now)) (Valid now)
           \<and> isBefore (year_set b (year now)) (add (Valid now) 30 Day))
          \<or> (isAfter (year_set b (year now + 1)) (Valid now)
           \<and> isBefore (year_set b (year now + 1)) (add (Valid now) 30 Day)))
      \<longleftrightarrow> (n < T \<and> T < n + 30 * MILLISECONDS_A_DAY) \<or> (n < N \<and> N < n + 30 * MILLISECONDS_A_DAY)"
    unfolding Valid m(1) by (simp add: m(2) T_def N_def n_def)
  have rhs: "getDaysUntilBirthday b now
      = Num (((if n < T then T else N) - n) div MILLISECONDS_A_DAY)"
    unfolding Valid getDaysUntilBirthday_valid [OF t assms(2)] T_def N_def n_def by simp
  have n1': "T < N" and n2': "n < N" using n1 n2 by (simp_all add: T_def N_def n_def)
  show ?thesis
  proof (cases "n < T")
    case True
    then show ?thesis
      unfolding lhs rhs using n1' days_window [of "T - n"] by (auto simp: within_days_def)
  next
    case False
    then show ?thesis
      unfolding lhs rhs using n2' days_window [of "N - n"] by (auto simp: within_days_def)
  qed
qed

lemma getUpcomingBirthdays_filter:
  "getUpcomingBirthdays ps now
   = filter (\<lambda>p. (isAfter (year_set (birthday p) (year now)) (Valid now)
           \<and> isBefore (year_set (birthday p) (year now)) (add (Valid now) 30 Day))
          \<or> (isAfter (year_set (birthday p) (year now + 1)) (Valid now)
           \<and> isBefore (year_set (birthday p) (year now + 1)) (add (Valid now) 30 Day))) ps"
  by (simp add: getUpcomingBirthdays_def Let_def)

lemma whole_days_less:
  fixes k t :: int
  assumes "0 \<le> t" "t < MILLISECONDS_A_DAY"
  shows "(k * MILLISECONDS_A_DAY - t) div MILLISECONDS_A_DAY = (if t = 0 then k else k - 1)"
proof (cases "t = 0")
  case True
  then show ?thesis using MILLISECONDS_A_DAY_pos by simp
next
  case False
  have "k * MILLISECONDS_A_DAY - t = MILLISECONDS_A_DAY * (k - 1) + (MILLISECONDS_A_DAY - t)"
    by (simp add: algebra_simps)
  then have "(k * MILLISECONDS_A_DAY - t) div MILLISECONDS_A_DAY = k - 1"
    using assms False int_div_pos_eq [of "k * MILLISECONDS_A_DAY - t" MILLISECONDS_A_DAY "k - 1"
        "MILLISECONDS_A_DAY - t"]
    by simp
  then show ?thesis using False by simp
qed

section \<open>The month difference\<close>

lemma set_month_fields_value:
  assumes "0 \<le> month a" "month a < 12"
  shows "valueOf (set_month_fields a (month a + w)) = shifted_value a (month_index a + w)"
proof -
  define k where "k = month_index a + w"
  define y' m' where "y' = year a + (month a + w) div 12" and "m' = (month a + w) mod 12"
  have m': "0 \<le> m'" "m' < 12" by (simp_all add: m'_def)
  have "k = 12 * y' + m'"
    by (simp add: k_def y'_def m'_def month_index_def algebra_simps)
  then have kd: "k div 12 = y'" and km: "k mod 12 = m'"
    using int_div_pos_eq [of k 12 y' m'] int_mod_pos_eq [of k 12 y' m'] m' by simp_all
  have "valueOf (set_month_fields a (month a + w))
      = days_from_civil y' m' (min (date a) (daysInMonth y' m')) * MILLISECONDS_A_DAY + tod a"
    by (simp add: set_month_fields_def Let_def valueOf_def y'_def m'_def)
  also have "\<dots> = shifted_value a k"
    by (simp add: shifted_value_def month_start_def month_len_def kd km days_from_civil_def)
  finally show ?thesis by (simp add: k_def)
qed

lemma valueOf_shifted:
  assumes "valid_datetime a"
  shows "valueOf a = shifted_value a (month_index a)"
  using assms valueOf_month_index [of a] month_len_index [of a]
  by (simp add: valid_datetime_def shifted_value_def min_def)

lemma shifted_value_bounds:
  assumes "1 \<le> date a" "0 \<le> tod a" "tod a < MILLISECONDS_A_DAY"
  shows "month_start k * MILLISECONDS_A_DAY \<le> shifted_value a k"
    and "shifted_value a k < month_start (k + 1) * MILLISECONDS_A_DAY"
proof -
  have d: "1 \<le> min (date a) (month_len k)" "min (date a) (month_len k) \<le> month_len k"
    using assms(1) month_len_bounds [of k] by simp_all
  have "month_start k * MILLISECONDS_A_DAY
      \<le> (month_start k + min (date a) (month_len k) - 1) * MILLISECONDS_A_DAY"
    using d(1) MILLISECONDS_A_DAY_pos by (intro mult_right_mono) simp_all
  then show "month_start k * MILLISECONDS_A_DAY \<le> shifted_value a k"
    using assms(2) by (simp add: shifted_value_def)
  have "(month_start k + min (date a) (month_len k) - 1 + 1) * MILLISECONDS_A_DAY
      \<le> month_start (k + 1) * MILLISECONDS_A_DAY"
    using d(2) MILLISECONDS_A_DAY_pos unfolding month_start_Suc by (intro mult_right_mono) simp_all
  then show "shifted_value a k < month_start (k + 1) * MILLISECONDS_A_DAY"
    using assms(3) by (simp add: shifted_value_def algebra_simps)
qed

lemma monthDiff_anchor_eq:
  assumes "valid_datetime a" "valid_datetime b"
  defines "k \<equiv> month_index b"
  defines "A \<equiv> shifted_value a k"
  defines "den \<equiv> (if valueOf b < A then A - shifted_value a (k - 1) else shifted_value a (k + 1) - A)"
  shows "monthDiff_anchor a b
         = - (of_int (k - month_index a) + of_int (valueOf b - A) / of_int den)"
    and "0 < den"
    and "valueOf b < A \<Longrightarrow> - den < valueOf b - A"
    and "\<not> valueOf b < A \<Longrightarrow> valueOf b - A < den"
proof -
  have ma: "0 \<le> month a" "month a < 12" and da: "1 \<le> date a" "0 \<le> tod a" "tod a < MILLISECONDS_A_DAY"
    using assms(1) by (simp_all add: valid_datetime_def)
  have db: "1 \<le> date b" "0 \<le> tod b" "tod b < MILLISECONDS_A_DAY"
    using assms(2) by (simp_all add: valid_datetime_def)
  have w: "(year b - year a) * 12 + (month b - month a) = k - month_index a"
    by (simp add: k_def month_index_def algebra_simps)
  have an: "valueOf (set_month_fields a (month a + (k - month_index a))) = A"
    using set_month_fields_value [OF ma, of "k - month_index a"] by (simp add: A_def)
  have an1: "valueOf (set_month_fields a (month a + (k - month_index a + - 1))) = shifted_value a (k - 1)"
    using set_month_fields_value [OF ma, of "k - month_index a + - 1"] by (simp add: algebra_simps)
  have an2: "valueOf (set_month_fields a (month a + (k - month_index a + 1))) = shifted_value a (k + 1)"
    using set_month_fields_value [OF ma, of "k - month_index a + 1"] by (simp add: algebra_simps)
  show "monthDiff_anchor a b
         = - (of_int (k - month_index a) + of_int (valueOf b - A) / of_int den)"
    unfolding monthDiff_anchor_def Let_def w an
    by (cases "valueOf b < A") (simp_all only: an1 an2 den_def if_True if_False diff_less_0_iff_less)
  have vb: "valueOf b = shifted_value b k"
    using assms(2) by (simp add: valueOf_shifted k_def)
  have lo: "month_start k * MILLISECONDS_A_DAY \<le> A" and hi: "A < month_start (k + 1) * MILLISECONDS_A_DAY"
    unfolding A_def using shifted_value_bounds [OF da] by simp_all
  have lob: "month_start k * MILLISECONDS_A_DAY \<le> valueOf b"
    and hib: "valueOf b < month_start (k + 1) * MILLISECONDS_A_DAY"
    unfolding vb using shifted_value_bounds [OF db] by simp_all
  have prev: "shifted_value a (k - 1) < month_start k * MILLISECONDS_A_DAY"
    using shifted_value_bounds(2) [OF da, of "k - 1"] by simp
  have nxt: "month_start (k + 1) * MILLISECONDS_A_DAY \<le> shifted_value a (k + 1)"
    using shifted_value_bounds(1) [OF da, of "k + 1"] by simp
  show "0 < den" using lo hi prev nxt by (simp add: den_def)
  show "valueOf b < A \<Longrightarrow> - den < valueOf b - A" using lob prev by (simp add: den_def)
  show "\<not> valueOf b < A \<Longrightarrow> valueOf b - A < den" using hib nxt by (simp add: den_def)
qed

lemma absFloor_twelfth:
  fixes n :: int and g :: rat
  assumes "0 \<le> n" "0 \<le> g" "g < 1"
  shows "absFloor ((of_int n + g) / 12) = n div 12"
proof -
  define q r where "q = n div 12" and "r = n mod 12"
  have n: "n = 12 * q + r" and r: "0 \<le> r" "r \<le> 11" by (simp_all add: q_def r_def)
  have x: "(of_int n + g) / 12 = of_int q + (of_int r + g) / 12"
    unfolding n by (simp add: field_simps)
  have "(0::rat) \<le> of_int r" "(of_int r :: rat) \<le> 11" using r by simp_all
  then have "0 \<le> (of_int r + g) / 12" "(of_int r + g) / 12 < 1" using assms(2,3) by simp_all
  then have "\<lfloor>(of_int n + g) / 12\<rfloor> = q" unfolding x by (intro floor_unique) simp_all
  moreover have "\<not> (of_int n + g) / 12 < 0" using assms(1,2) by (simp add: not_less)
  ultimately show ?thesis by (simp add: absFloor_def q_def)
qed

lemma month_index_diff_div:
  fixes Y yb mn mb :: int
  assumes "0 \<le> mn" "mn < 12" "0 \<le> mb" "mb < 12"
  shows "((Y * 12 + mn) - (yb * 12 + mb)) div 12 = Y - yb - (if mn < mb then 1 else 0)"
    and "((Y * 12 + mn) - (yb * 12 + mb) - 1) div 12 = Y - yb - (if mn \<le> mb then 1 else 0)"
  using assms by auto

lemma same_month_less:
  fixes s d e t :: int
  assumes "0 \<le> t" "t < MILLISECONDS_A_DAY"
  shows "((s + d - 1) * MILLISECONDS_A_DAY + t < (s + e - 1) * MILLISECONDS_A_DAY) \<longleftrightarrow> d < e"
  using assms unfolding MILLISECONDS_A_DAY_def by auto

lemma month_index_le:
  assumes "valid_datetime a" "valid_datetime b" "valueOf a \<le> valueOf b"
  shows "month_index a \<le> month_index b"
  using assms valueOf_less_of_month_index [of b a] by (cases "month_index b < month_index a") simp_all

lemma calculateAge_value:
  assumes b: "valid_datetime b" and tb: "tod b = 0" and now: "valid_datetime now"
    and le: "valueOf b \<le> valueOf now"
  shows "calculateAge (Valid b) now
       = Num (year now - year b
              - (if month_day_precedes (month now, date now)
                     (month b, min (date b) (daysInMonth (year now) (month b)))
                 then 1 else 0))"
proof -
  define kb kn where "kb = month_index b" and "kn = month_index now"
  define n where "n = kn - kb"
  have mb: "0 \<le> month b" "month b < 12" and db: "1 \<le> date b" "date b \<le> month_len kb"
    using b month_len_index [of b] by (simp_all add: valid_datetime_def kb_def)
  have mn: "0 \<le> month now" "month now < 12" and dn: "1 \<le> date now" "date now \<le> month_len kn"
    and tn: "0 \<le> tod now" "tod now < MILLISECONDS_A_DAY"
    using now month_len_index [of now] by (simp_all add: valid_datetime_def kn_def)
  have ln: "month_len kn = daysInMonth (year now) (month now)"
    using month_len_index [of now] mn by (simp add: kn_def)
  have n0: "0 \<le> n" using month_index_le [OF b now le] by (simp add: n_def kb_def kn_def)
  have nd: "n = (year now * 12 + month now) - (year b * 12 + month b)"
    by (simp add: n_def kn_def kb_def month_index_def)
  have vb: "valueOf b = (month_start kb + date b - 1) * MILLISECONDS_A_DAY"
    using valueOf_month_index [of b] mb tb by (simp add: kb_def)
  have vn: "valueOf now = (month_start kn + date now - 1) * MILLISECONDS_A_DAY + tod now"
    using valueOf_month_index [of now] mn by (simp add: kn_def)
  show ?thesis
  proof (cases "date now < date b")
    case False
    define A where "A = shifted_value now kb"
    define den where "den = (if valueOf b < A then A - shifted_value now (kb - 1)
                             else shifted_value now (kb + 1) - A)"
    note an = monthDiff_anchor_eq [OF now b, folded kb_def, folded A_def, folded den_def]
    have "date b \<le> min (date now) (month_len kb)" using False db by simp
    then have "(month_start kb + date b - 1) * MILLISECONDS_A_DAY
        \<le> (month_start kb + min (date now) (month_len kb) - 1) * MILLISECONDS_A_DAY"
      using MILLISECONDS_A_DAY_pos by (intro mult_right_mono) simp_all
    then have vA: "valueOf b \<le> A" using tn(1) unfolding vb A_def shifted_value_def by linarith
    define g :: rat where "g = of_int (A - valueOf b) / of_int den"
    have "0 \<le> A - valueOf b" "A - valueOf b < den"
      using vA an(2) an(3) by (cases "valueOf b < A"; simp)+
    then have g: "0 \<le> g" "g < 1"
      using an(2) by (simp_all add: g_def del: of_int_diff)
    have "monthDiff now b = of_int n + g"
      using False an(1) by (simp add: monthDiff_def g_def n_def kn_def minus_divide_left)
    then have "calculateAge (Valid b) now = Num (n div 12)"
      using absFloor_twelfth [OF n0 g] by (simp add: calculateAge_def)
    moreover have "n div 12 = year now - year b - (if month now < month b then 1 else 0)"
      unfolding nd using mn mb by (rule month_index_diff_div(1))
    moreover have "month_day_precedes (month now, date now)
        (month b, min (date b) (daysInMonth (year now) (month b))) \<longleftrightarrow> month now < month b"
      using False by (auto simp: month_day_precedes_def)
    ultimately show ?thesis by simp
  next
    case True
    define A where "A = shifted_value b kn"
    define den where "den = (if valueOf now < A then A - shifted_value b (kn - 1)
                             else shifted_value b (kn + 1) - A)"
    note an = monthDiff_anchor_eq [OF b now, folded kn_def, folded A_def, folded den_def]
    have md: "monthDiff now b = of_int n + of_int (valueOf now - A) / of_int den"
      using True an(1) by (simp add: monthDiff_def n_def kb_def)
    have Av: "A = (month_start kn + min (date b) (month_len kn) - 1) * MILLISECONDS_A_DAY"
      by (simp add: A_def shifted_value_def tb)
    have c_iff: "valueOf now < A \<longleftrightarrow> date now < min (date b) (month_len kn)"
      unfolding vn Av using tn by (rule same_month_less)
    show ?thesis
    proof (cases "valueOf now < A")
      case c: True
      have "n \<noteq> 0"
      proof
        assume "n = 0"
        then have "kn = kb" by (simp add: n_def)
        then have "A = valueOf b" using db by (simp add: Av vb min_def)
        then show False using c le by simp
      qed
      then have n1: "0 \<le> n - 1" using n0 by simp
      define g :: rat where "g = 1 + of_int (valueOf now - A) / of_int den"
      have "0 \<le> den + (valueOf now - A)" "den + (valueOf now - A) < den"
        using an(3) [OF c] c by simp_all
      then have "(0::rat) \<le> of_int (den + (valueOf now - A)) / of_int den"
        "of_int (den + (valueOf now - A)) / of_int den < (1::rat)"
        using an(2) by (simp_all del: of_int_diff of_int_add)
      moreover have "g = of_int (den + (valueOf now - A)) / of_int den"
        using an(2) by (simp add: g_def add_divide_distrib del: of_int_diff)
      ultimately have g: "0 \<le> g" "g < 1" by simp_all
      have "monthDiff now b = of_int (n - 1) + g" by (simp add: md g_def)
      then have "calculateAge (Valid b) now = Num ((n - 1) div 12)"
        using absFloor_twelfth [OF n1 g] by (simp add: calculateAge_def)
      moreover have "(n - 1) div 12 = year now - year b - (if month now \<le> month b then 1 else 0)"
        unfolding nd using mn mb by (rule month_index_diff_div(2))
      moreover have "month_day_precedes (month now, date now)
          (month b, min (date b) (daysInMonth (year now) (month b))) \<longleftrightarrow> month now \<le> month b"
        using c c_iff ln by (auto simp: month_day_precedes_def)
      ultimately show ?thesis by simp
    next
      case c: False
      define g :: rat where "g = of_int (valueOf now - A) / of_int den"
      have "0 \<le> valueOf now - A" "valueOf now - A < den"
        using an(4) [OF c] c by simp_all
      then have g: "0 \<le> g" "g < 1"
        using an(2) by (simp_all add: g_def del: of_int_diff)
      have "monthDiff now b = of_int n + g" by (simp add: md g_def)
      then have "calculateAge (Valid b) now = Num (n div 12)"
        using absFloor_twelfth [OF n0 g] by (simp add: calculateAge_def)
      moreover have "n div 12 = year now - year b - (if month now < month b then 1 else 0)"
        unfolding nd using mn mb by (rule month_index_diff_div(1))
      moreover have "month_day_precedes (month now, date now)
          (month b, min (date b) (daysInMonth (year now) (month b))) \<longleftrightarrow> month now < month b"
        using c c_iff ln by (auto simp: month_day_precedes_def)
      ultimately show ?thesis by simp
    qed
  qed
qed

lemma absFloor_twelfth_nonpos:
  fixes x :: rat
  assumes "x \<le> 0"
  shows "absFloor (x / 12) \<le> 0"
proof (cases "x / 12 < 0")
  case True
  then have "\<lceil>x / 12\<rceil> \<le> 0" by (simp add: ceiling_le_zero)
  then show ?thesis using True by (simp add: absFloor_def)
next
  case False
  then have "x = 0" using assms by simp
  then show ?thesis by (simp add: absFloor_def)
qed

lemma monthDiff_near:
  assumes a: "valid_datetime a" and b: "valid_datetime b"
  shows "- 1 < monthDiff a b + of_int (month_index b - month_index a)"
    and "monthDiff a b + of_int (month_index b - month_index a) < 1"
proof -
  define ka kb where "ka = month_index a" and "kb = month_index b"
  have "- 1 < monthDiff a b + of_int (kb - ka) \<and> monthDiff a b + of_int (kb - ka) < 1"
  proof (cases "date a < date b")
    case False
    define A where "A = shifted_value a kb"
    define den where "den = (if valueOf b < A then A - shifted_value a (kb - 1)
                             else shifted_value a (kb + 1) - A)"
    note an = monthDiff_anchor_eq [OF a b, folded kb_def, folded A_def, folded den_def]
    have i: "- den < valueOf b - A" "valueOf b - A < den"
      using an(2) an(3) an(4) by (cases "valueOf b < A"; simp)+
    have "- 1 < (of_int (valueOf b - A) / of_int den :: rat)"
      "(of_int (valueOf b - A) / of_int den :: rat) < 1"
      using i an(2) by (simp_all add: less_divide_eq divide_less_eq del: of_int_diff flip: of_int_minus)
    moreover have "monthDiff a b + of_int (kb - ka) = - (of_int (valueOf b - A) / of_int den)"
      using False an(1) by (simp add: monthDiff_def ka_def)
    ultimately show ?thesis by simp
  next
    case True
    define A where "A = shifted_value b ka"
    define den where "den = (if valueOf a < A then A - shifted_value b (ka - 1)
                             else shifted_value b (ka + 1) - A)"
    note an = monthDiff_anchor_eq [OF b a, folded ka_def, folded A_def, folded den_def]
    have i: "- den < valueOf a - A" "valueOf a - A < den"
      using an(2) an(3) an(4) by (cases "valueOf a < A"; simp)+
    have "- 1 < (of_int (valueOf a - A) / of_int den :: rat)"
      "(of_int (valueOf a - A) / of_int den :: rat) < 1"
      using i an(2) by (simp_all add: less_divide_eq divide_less_eq del: of_int_diff flip: of_int_minus)
    moreover have "monthDiff a b + of_int (kb - ka) = of_int (valueOf a - A) / of_int den"
      using True an(1) by (simp add: monthDiff_def kb_def)
    ultimately show ?thesis by simp
  qed
  then show "- 1 < monthDiff a b + of_int (month_index b - month_index a)"
    and "monthDiff a b + of_int (month_index b - month_index a) < 1"
    by (simp_all add: ka_def kb_def)
qed

lemma absFloor_twelfth_range:
  fixes x :: rat and D :: int
  assumes "x \<le> 0" "- (12 * of_int D + 12) < x" "x < - (12 * of_int D) + 12"
  shows "- D \<le> absFloor (x / 12)" "absFloor (x / 12) \<le> - D + 1"
proof -
  have "- D \<le> absFloor (x / 12) \<and> absFloor (x / 12) \<le> - D + 1"
  proof (cases "x / 12 < 0")
    case True
    have "of_int (- D) - 1 < x / 12" using assms(2) by simp
    then have "- D \<le> \<lceil>x / 12\<rceil>" by (simp only: le_ceiling_iff)
    moreover have "x / 12 \<le> of_int (- D + 1)" using assms(3) by simp
    then have "\<lceil>x / 12\<rceil> \<le> - D + 1" by (simp only: ceiling_le_iff)
    ultimately show ?thesis using True by (simp add: absFloor_def)
  next
    case False
    then have x: "x = 0" using assms(1) by simp
    have "(0::rat) < 12 * of_int (D + 1)" "(12 * of_int D :: rat) < 12"
      using assms(2,3) unfolding x by simp_all
    then have "0 < D + 1" "D < 1" by (simp_all only: zero_less_mult_iff mult_less_cancel_left1 of_int_0_less_iff of_int_less_1_iff) simp_all
    then show ?thesis by (simp add: x absFloor_def)
  qed
  then show "- D \<le> absFloor (x / 12)" "absFloor (x / 12) \<le> - D + 1" by simp_all
qed

lemma monthDiff_future:
  assumes b: "valid_datetime b" and now: "valid_datetime now"
    and lt: "valueOf now < valueOf b"
  shows "monthDiff now b \<le> 0"
proof -
  define kb kn where "kb = month_index b" and "kn = month_index now"
  have k: "kn \<le> kb" using month_index_le [OF now b] lt by (simp add: kb_def kn_def)
  show ?thesis
  proof (cases "date now < date b")
    case False
    define A where "A = shifted_value now kb"
    define den where "den = (if valueOf b < A then A - shifted_value now (kb - 1)
                             else shifted_value now (kb + 1) - A)"
    note an = monthDiff_anchor_eq [OF now b, folded kb_def, folded A_def, folded den_def]
    have "0 \<le> (kb - kn) * den + (valueOf b - A)"
    proof (cases "valueOf b < A")
      case True
      then have "kb \<noteq> kn" using lt valueOf_shifted [OF now] by (auto simp: A_def kn_def)
      then have "1 \<le> kb - kn" using k by simp
      then have "1 * den \<le> (kb - kn) * den" using an(2) by (intro mult_right_mono) simp_all
      then show ?thesis using an(3) [OF True] by simp
    next
      case False
      moreover have "0 \<le> (kb - kn) * den" using k an(2) by simp
      ultimately show ?thesis by simp
    qed
    then have "(0::rat) \<le> of_int ((kb - kn) * den + (valueOf b - A)) / of_int den"
      using an(2) by (simp del: of_int_add of_int_diff of_int_mult)
    moreover have "of_int ((kb - kn) * den + (valueOf b - A)) / of_int den
        = (of_int (kb - kn) + of_int (valueOf b - A) / of_int den :: rat)"
      using an(2) by (simp add: add_divide_distrib)
    ultimately show ?thesis
      using False an(1) by (simp add: monthDiff_def kn_def del: of_int_diff)
  next
    case True
    define A where "A = shifted_value b kn"
    define den where "den = (if valueOf now < A then A - shifted_value b (kn - 1)
                             else shifted_value b (kn + 1) - A)"
    note an = monthDiff_anchor_eq [OF b now, folded kn_def, folded A_def, folded den_def]
    have "(kn - kb) * den + (valueOf now - A) \<le> 0"
    proof (cases "valueOf now < A")
      case c: True
      moreover have "(kn - kb) * den \<le> 0" using k an(2) by (simp add: mult_le_0_iff)
      ultimately show ?thesis by simp
    next
      case c: False
      then have "kn \<noteq> kb" using lt valueOf_shifted [OF b] by (auto simp: A_def kb_def)
      then have "kn - kb \<le> - 1" using k by simp
      then have "(kn - kb) * den \<le> - 1 * den" using an(2) by (intro mult_right_mono) simp_all
      then show ?thesis using an(4) [OF c] by simp
    qed
    then have "of_int ((kn - kb) * den + (valueOf now - A)) / of_int den \<le> (0::rat)"
      using an(2) by (simp add: divide_le_0_iff del: of_int_add of_int_diff of_int_mult)
    moreover have "of_int ((kn - kb) * den + (valueOf now - A)) / of_int den
        = (of_int (kn - kb) + of_int (valueOf now - A) / of_int den :: rat)"
      using an(2) by (simp add: add_divide_distrib)
    ultimately show ?thesis
      using True an(1) by (simp add: monthDiff_def kb_def del: of_int_diff)
  qed
qed


lemma calculateAge_future:
  assumes b: "valid_datetime b" and now: "valid_datetime now"
    and lt: "valueOf now < valueOf b"
  shows "\<exists>a. calculateAge (Valid b) now = Num a \<and> a \<le> 0
             \<and> year now - year b \<le> a \<and> a \<le> year now - year b + 1"
proof -
  define x where "x = monthDiff now b"
  define D where "D = year b - year now"
  have mb: "0 \<le> month b" "month b < 12" and mn: "0 \<le> month now" "month now < 12"
    using b now by (simp_all add: valid_datetime_def)
  have w: "month_index b - month_index now = 12 * D + (month b - month now)"
    by (simp add: month_index_def D_def)
  have x0: "x \<le> 0" unfolding x_def using assms by (rule monthDiff_future)
  have "- 1 < x + of_int (12 * D + (month b - month now))"
    "x + of_int (12 * D + (month b - month now)) < 1"
    using monthDiff_near [OF now b] unfolding w x_def by simp_all
  moreover define r :: rat where "r = of_int (month b - month now)"
  moreover have "month b - month now \<le> 11" "- 11 \<le> month b - month now"
    using mb mn by simp_all
  then have "r \<le> of_int 11" "of_int (- 11) \<le> r"
    unfolding r_def by (simp_all only: of_int_le_iff)
  then have "r \<le> 11" "- 11 \<le> r" by simp_all
  ultimately have lo: "- (12 * of_int D + 12) < x" and hi: "x < - (12 * of_int D) + 12"
    by simp_all
  have "- D \<le> absFloor (x / 12)" "absFloor (x / 12) \<le> - D + 1"
    using absFloor_twelfth_range [OF x0 lo hi] by simp_all
  moreover have "absFloor (x / 12) \<le> 0" using x0 by (rule absFloor_twelfth_nonpos)
  ultimately show ?thesis
    by (simp add: calculateAge_def x_def D_def)
qed

lemma next_year_same_day:
  assumes "0 \<le> m" "m < 12" "1 \<le> d" "d \<le> daysInMonth y m"
  shows "days_from_civil y m d + 365 \<le> days_from_civil (y + 1) m (min d (daysInMonth (y + 1) m))"
proof -
  have m: "m = 0 \<or> m = 1 \<or> m = 2 \<or> m = 3 \<or> m = 4 \<or> m = 5 \<or> m = 6 \<or> m = 7 \<or> m = 8
      \<or> m = 9 \<or> m = 10 \<or> m = 11"
    using assms(1,2) by arith
  have a: "days_before_month y m \<le> days_before_month (y + 1) m + (if isLeapYear y \<and> 2 \<le> m then 1 else 0)"
    using m unfolding days_before_month_def Let_def by (elim disjE) simp_all
  have b: "d \<le> min d (daysInMonth (y + 1) m) + (if isLeapYear y \<and> m = 1 then 1 else 0)"
    using assms(4) unfolding daysInMonth_def by (auto split: if_splits)
  show ?thesis
    using a b days_before_year_Suc [of y] unfolding days_from_civil_def
    by (simp split: if_splits)
qed

section \<open>The date constructor\<close>

lemma set_month_fields_first:
  "set_month_fields \<lparr>year = y, month = m0, date = 1, tod = 0\<rparr> m
   = \<lparr>year = y + m div 12, month = m mod 12, date = 1, tod = 0\<rparr>"
  using daysInMonth_bounds [of "y + m div 12" "m mod 12"]
  by (simp add: set_month_fields_def Let_def)

lemma dayjs_parse_valid:
  assumes "0 \<le> d"
  shows "\<exists>t. dayjs_parse y m d = Valid t \<and> valid_datetime t \<and> tod t = 0"
proof (cases "d < 1")
  case True
  then have d: "d = 0" using assms by simp
  define f where "f = set_month_fields \<lparr>year = Date_year y, month = 0, date = 1, tod = 0\<rparr> (m - 1)"
  define p where "p = set_month_fields f (month f - 1)"
  have "month p = (month f - 1) mod 12" "tod p = 0"
    by (simp_all add: p_def f_def set_month_fields_def Let_def)
  then have "valid_datetime (p\<lparr>date := daysInMonth (year p) (month p) + d\<rparr>)"
    using daysInMonth_bounds [of "year p" "month p"] d
    by (simp add: valid_datetime_def MILLISECONDS_A_DAY_def)
  moreover have "tod (p\<lparr>date := daysInMonth (year p) (month p) + d\<rparr>) = 0"
    using \<open>tod p = 0\<close> by simp
  ultimately show ?thesis
    using True by (simp add: dayjs_parse_def Let_def f_def [symmetric] p_def [symmetric])
next
  case False
  define f where "f = set_month_fields \<lparr>year = Date_year y, month = 0, date = 1, tod = 0\<rparr> (m - 1)"
  have f: "f = \<lparr>year = Date_year y + (m - 1) div 12, month = (m - 1) mod 12, date = 1, tod = 0\<rparr>"
    unfolding f_def by (rule set_month_fields_first)
  obtain y' m' d' where r: "rollover (year f) (month f) d = (y', m', d')"
    by (metis prod_cases3)
  have "0 \<le> m' \<and> m' < 12 \<and> 1 \<le> d' \<and> d' \<le> daysInMonth y' m'
     \<and> days_from_civil y' m' d' = days_from_civil (year f) (month f) d"
    using False r by (intro rollover_correct) (simp_all add: f)
  then have "valid_datetime (set_date_fields f d)" "tod (set_date_fields f d) = 0"
    using r by (simp_all add: set_date_fields_def valid_datetime_def f MILLISECONDS_A_DAY_def)
  then show ?thesis
    using False by (simp add: dayjs_parse_def Let_def f_def [symmetric])
qed

lemma dayjs_parse_well_formed:
  assumes "\<not> (0 \<le> y \<and> y \<le> 99)" "1 \<le> m" "m \<le> 12" "1 \<le> d" "d \<le> daysInMonth y (m - 1)"
  shows "dayjs_parse y m d = dayjs_ymd y m d"
proof -
  have "(m - 1) div 12 = 0" "(m - 1) mod 12 = m - 1" using assms(2,3) by simp_all
  then have f: "set_month_fields \<lparr>year = Date_year y, month = 0, date = 1, tod = 0\<rparr> (m - 1)
      = \<lparr>year = y, month = m - 1, date = 1, tod = 0\<rparr>"
    using assms(1) by (simp add: set_month_fields_first Date_year_def)
  have "rollover y (m - 1) d = (y, m - 1, d)"
    using assms(5) by (subst rollover.simps) simp
  then show ?thesis
    using assms(4) by (simp add: dayjs_parse_def Let_def f set_date_fields_def dayjs_ymd_def)
qed

section \<open>The 30-day test in calendar days\<close>

lemma valueOf_day_number: "valueOf t = day_number t * MILLISECONDS_A_DAY + tod t"
  by (simp add: valueOf_def day_number_def)

text \<open>The code's test, for a valid date-only birthday, in calendar days.\<close>

lemma upcoming_test_days:
  assumes b: "valid_datetime b" and tb: "tod b = 0" and now: "valid_datetime now"
  shows "((isAfter (year_set (Valid b) (year now)) (Valid now)
           \<and> isBefore (year_set (Valid b) (year now)) (add (Valid now) 30 Day))
          \<or> (isAfter (year_set (Valid b) (year now + 1)) (Valid now)
           \<and> isBefore (year_set (Valid b) (year now + 1)) (add (Valid now) 30 Day)))
         \<and> daysUntil b now \<noteq> 0
         \<longleftrightarrow> 1 \<le> daysUntil b now
             \<and> (daysUntil b now \<le> 29 \<or> (daysUntil b now = 30 \<and> 0 < tod now))"
proof -
  define T N n t where "T = day_number (set_year_fields b (year now))"
    and "N = day_number (set_year_fields b (year now + 1))" and "n = day_number now"
    and "t = tod now"
  have t: "0 \<le> t" "t < MILLISECONDS_A_DAY" using now by (simp_all add: valid_datetime_def t_def)
  obtain m where m: "add (Valid now) 30 Day = Valid m"
    "valueOf m = valueOf now + 30 * MILLISECONDS_A_DAY"
    using add_day_value [OF now, of 30] by auto
  have vT: "valueOf (set_year_fields b (year now)) = T * MILLISECONDS_A_DAY"
    and vN: "valueOf (set_year_fields b (year now + 1)) = N * MILLISECONDS_A_DAY"
    using tb by (simp_all add: valueOf_day_number T_def N_def set_year_fields_def)
  have vn: "valueOf now = n * MILLISECONDS_A_DAY + t"
    by (simp add: valueOf_day_number n_def t_def)
  have "valueOf (set_year_fields b (year now)) < valueOf (set_year_fields b (year now + 1))"
    using b by (rule next_year_after_this)
  then have TN: "T < N" unfolding vT vN using MILLISECONDS_A_DAY_pos by simp
  have "valueOf now < valueOf (set_year_fields b (year now + 1))"
    using b now by (rule next_year_after_now)
  then have nN: "n < N" unfolding vN vn using t unfolding MILLISECONDS_A_DAY_def by auto
  have lhs: "((isAfter (year_set (Valid b) (year now)) (Valid now)
           \<and> isBefore (year_set (Valid b) (year now)) (add (Valid now) 30 Day))
          \<or> (isAfter (year_set (Valid b) (year now + 1)) (Valid now)
           \<and> isBefore (year_set (Valid b) (year now + 1)) (add (Valid now) 30 Day)))
      \<longleftrightarrow> (n * MILLISECONDS_A_DAY + t < T * MILLISECONDS_A_DAY
             \<and> T * MILLISECONDS_A_DAY < n * MILLISECONDS_A_DAY + t + 30 * MILLISECONDS_A_DAY)
          \<or> (n * MILLISECONDS_A_DAY + t < N * MILLISECONDS_A_DAY
             \<and> N * MILLISECONDS_A_DAY < n * MILLISECONDS_A_DAY + t + 30 * MILLISECONDS_A_DAY)"
    unfolding m(1) by (simp add: m(2) vT vN vn)
  have d: "daysUntil b now = (if n \<le> T then T - n else N - n)"
    by (simp add: daysUntil_def nextOccurrence_def Let_def T_def N_def n_def)
  show ?thesis
    unfolding lhs d t_def [symmetric] using t TN nN unfolding MILLISECONDS_A_DAY_def by auto
qed

lemma upcoming_never_invalid:
  "p \<in> set (getUpcomingBirthdays ps now) \<Longrightarrow> birthday p \<noteq> Invalid"
  unfolding getUpcomingBirthdays_filter by auto

lemma upcoming_days_bound:
  assumes b: "valid_datetime b" and now: "valid_datetime now"
    and inc: "(isAfter (year_set (Valid b) (year now)) (Valid now)
           \<and> isBefore (year_set (Valid b) (year now)) (add (Valid now) 30 Day))
          \<or> (isAfter (year_set (Valid b) (year now + 1)) (Valid now)
           \<and> isBefore (year_set (Valid b) (year now + 1)) (add (Valid now) 30 Day))"
  shows "daysUntil b now \<le> 30"
proof -
  define T N n t s where "T = day_number (set_year_fields b (year now))"
    and "N = day_number (set_year_fields b (year now + 1))" and "n = day_number now"
    and "t = tod now" and "s = tod b"
  have t: "0 \<le> t" "t < MILLISECONDS_A_DAY" using now by (simp_all add: valid_datetime_def t_def)
  have s: "0 \<le> s" "s < MILLISECONDS_A_DAY" using b by (simp_all add: valid_datetime_def s_def)
  obtain m where m: "add (Valid now) 30 Day = Valid m"
    "valueOf m = valueOf now + 30 * MILLISECONDS_A_DAY"
    using add_day_value [OF now, of 30] by auto
  have vT: "valueOf (set_year_fields b (year now)) = T * MILLISECONDS_A_DAY + s"
    and vN: "valueOf (set_year_fields b (year now + 1)) = N * MILLISECONDS_A_DAY + s"
    by (simp_all add: valueOf_day_number T_def N_def s_def set_year_fields_def)
  have vn: "valueOf now = n * MILLISECONDS_A_DAY + t"
    by (simp add: valueOf_day_number n_def t_def)
  have "valueOf (set_year_fields b (year now)) < valueOf (set_year_fields b (year now + 1))"
    using b by (rule next_year_after_this)
  then have TN: "T < N" unfolding vT vN using MILLISECONDS_A_DAY_pos by simp
  have inc': "(n * MILLISECONDS_A_DAY + t < T * MILLISECONDS_A_DAY + s
             \<and> T * MILLISECONDS_A_DAY + s < n * MILLISECONDS_A_DAY + t + 30 * MILLISECONDS_A_DAY)
          \<or> (n * MILLISECONDS_A_DAY + t < N * MILLISECONDS_A_DAY + s
             \<and> N * MILLISECONDS_A_DAY + s < n * MILLISECONDS_A_DAY + t + 30 * MILLISECONDS_A_DAY)"
    using inc unfolding m(1) by (simp add: m(2) vT vN vn)
  have d: "daysUntil b now = (if n \<le> T then T - n else N - n)"
    by (simp add: daysUntil_def nextOccurrence_def Let_def T_def N_def n_def)
  show ?thesis
    unfolding d using inc' t s TN unfolding MILLISECONDS_A_DAY_def by auto
qed

section \<open>Loading and deleting\<close>

text \<open>
  C10. When loading the person list fails, because the call of the store throws or because
  the response is not a success, the people state is what it was before and the loading
  flag is false afterwards.
\<close>

theorem loadPeople_failure:
  assumes "outcome = Rejected \<or> (\<exists>r. outcome = Fulfilled r \<and> \<not> success r)"
  shows "people (fst (loadPeople outcome s)) = people s
         \<and> loading (fst (loadPeople outcome s)) = False"
  using assms by (auto simp: loadPeople_def)

theorem loadPeople_failure_witness:
  "people (fst (loadPeople Rejected
      \<lparr>people = [], loading = True, modalVisible = False, editingPerson = None\<rparr>)) = []
   \<and> loading (fst (loadPeople Rejected
      \<lparr>people = [], loading = True, modalVisible = False, editingPerson = None\<rparr>)) = False"
  using loadPeople_failure [of Rejected
      "\<lparr>people = [], loading = True, modalVisible = False, editingPerson = None\<rparr>"]
  by simp

text \<open>
  C9. The delete action is a stub. Whatever the id and however the reload ends, it writes
  one line to the console and then does what \<open>loadPeople\<close> does; the only endpoint of the
  store it calls is \<open>list\<close>. So if \<open>list\<close> leaves the stored records alone, they are the
  same after the action as before.
\<close>

theorem handleDelete_stub:
  "snd (handleDelete i outcome s)
     = ConsoleLog ''Delete functionality would be implemented here for ID:'' i
       # snd (loadPeople outcome s)
   \<and> fst (handleDelete i outcome s) = fst (loadPeople outcome s)
   \<and> (\<forall>endpoint. StoreCall endpoint \<in> set (snd (handleDelete i outcome s))
        \<longrightarrow> endpoint = ''list'')
   \<and> (sem ''list'' = id \<longrightarrow> store_after sem (snd (handleDelete i outcome s)) st = st)"
  by (cases outcome) (auto simp: handleDelete_def loadPeople_def Let_def split: prod.splits)

theorem handleDelete_stub_witness:
  "store_after (\<lambda>endpoint st. if endpoint = ''list'' then st else [])
     (snd (handleDelete ''42'' (Fulfilled \<lparr>success = True, data = []\<rparr>)
        \<lparr>people = [], loading = False, modalVisible = False, editingPerson = None\<rparr>))
     [''ann'', ''bob''] = [''ann'', ''bob'']"
proof -
  have "(\<lambda>endpoint st. if endpoint = ''list'' then st else []) ''list''
      = (id :: string list \<Rightarrow> string list)"
    by (simp add: fun_eq_iff)
  then show ?thesis
    using handleDelete_stub [of "''42''" "Fulfilled \<lparr>success = True, data = []\<rparr>"
        "\<lparr>people = [], loading = False, modalVisible = False, editingPerson = None\<rparr>"
        "\<lambda>endpoint st. if endpoint = ''list'' then st else []" "[''ann'', ''bob'']"]
    by blast
qed

section \<open>Days until the birthday: the scenarios\<close>

text \<open>
  C1. The specification asks for 0 days on the birthday itself. The function compares
  this year's occurrence (local midnight) with the clock by \<^verbatim>\<open>isAfter\<close>, which is
  strict, and does not truncate the clock to its date: on 2024-03-15, for the birthday
  1985-03-15, it counts to 2025-03-15 and returns 365 at midnight and 364 at any later time
  of that day, never 0.
\<close>

theorem same_day_days_until:
  assumes "0 \<le> t" "t < MILLISECONDS_A_DAY"
  shows "getDaysUntilBirthday (dayjs_ymd 1985 3 15)
           \<lparr>year = 2024, month = 2, date = 15, tod = t\<rparr>
         = Num (if t = 0 then 365 else 364)"
proof -
  let ?now = "\<lparr>year = 2024, month = 2, date = 15, tod = t\<rparr>"
  let ?next = "\<lparr>year = 2025, month = 2, date = 15, tod = 0\<rparr>"
  have v: "valueOf ?next - valueOf ?now = 365 * MILLISECONDS_A_DAY - t"
    by (simp add: calendar_defs)
  have "absFloor (of_int (valueOf ?next - valueOf ?now) / of_int MILLISECONDS_A_DAY)
      = (valueOf ?next - valueOf ?now) div MILLISECONDS_A_DAY"
    using assms MILLISECONDS_A_DAY_pos unfolding v by (intro absFloor_of_int_div) simp_all
  also have "\<dots> = (if t = 0 then 365 else 364)"
    using assms unfolding v MILLISECONDS_A_DAY_def by auto
  finally have d: "absFloor (of_int (valueOf ?next - valueOf ?now) / of_int MILLISECONDS_A_DAY)
      = (if t = 0 then 365 else 364)" .
  have na: "\<not> valueOf ?now < valueOf \<lparr>year = 2024, month = 2, date = 15, tod = 0\<rparr>"
    using assms by (simp add: calendar_defs)
  show ?thesis
    using d na
    by (simp add: getDaysUntilBirthday_def dayjs_ymd_def set_year_fields_def daysInMonth_def
        del: of_int_diff)
qed

theorem same_day_days_until_witness:
  "getDaysUntilBirthday (dayjs_ymd 1985 3 15)
     \<lparr>year = 2024, month = 2, date = 15, tod = 43200000\<rparr> = Num 364"
  using same_day_days_until [of 43200000] by (simp add: MILLISECONDS_A_DAY_def)

text \<open>
  The same holds on every birthday: when the month and day of the clock are those of a
  valid date-only birthday, the function returns at least 364.
\<close>

lemma on_the_birthday:
  assumes "valid_datetime b" "tod b = 0" "valid_datetime now"
    and "month now = month b" "date now = date b"
  shows "\<exists>d. getDaysUntilBirthday (Valid b) now = Num d \<and> 364 \<le> d"
proof -
  have f: "0 \<le> month now" "month now < 12" "1 \<le> date now"
    "date now \<le> daysInMonth (year now) (month now)" "0 \<le> tod now" "tod now < MILLISECONDS_A_DAY"
    using assms(3) by (simp_all add: valid_datetime_def)
  have "set_year_fields b (year now) = now\<lparr>tod := 0\<rparr>"
    using assms(2,4,5) f(4) by (simp add: set_year_fields_def)
  then have na: "\<not> valueOf now < valueOf (set_year_fields b (year now))"
    using f(5) by (simp add: valueOf_def)
  have "valueOf (set_year_fields b (year now + 1))
      = days_from_civil (year now + 1) (month now)
          (min (date now) (daysInMonth (year now + 1) (month now))) * MILLISECONDS_A_DAY"
    using assms(2,4,5) by (simp add: set_year_fields_def valueOf_def)
  moreover have "(days_from_civil (year now) (month now) (date now) + 365) * MILLISECONDS_A_DAY
      \<le> days_from_civil (year now + 1) (month now)
          (min (date now) (daysInMonth (year now + 1) (month now))) * MILLISECONDS_A_DAY"
    using next_year_same_day [OF f(1-4)] MILLISECONDS_A_DAY_pos by (intro mult_right_mono) simp_all
  ultimately have "364 * MILLISECONDS_A_DAY
      \<le> valueOf (set_year_fields b (year now + 1)) - valueOf now"
    using f(6) by (simp add: valueOf_def algebra_simps)
  then have "364 \<le> (valueOf (set_year_fields b (year now + 1)) - valueOf now) div MILLISECONDS_A_DAY"
    using zdiv_mono1 [of "364 * MILLISECONDS_A_DAY"
        "valueOf (set_year_fields b (year now + 1)) - valueOf now" MILLISECONDS_A_DAY]
      MILLISECONDS_A_DAY_pos by simp
  then show ?thesis
    using na unfolding getDaysUntilBirthday_valid [OF assms(1,3)] by simp
qed

text \<open>
  C6. When this year's occurrence is not after the clock, the function counts to next
  year's occurrence: on 2024-03-16, for the birthday 1985-03-15, that is 2025-03-15. The
  count is 364 only at exactly midnight; at every later instant of 2024-03-16 the function
  returns 363, because the clock is not truncated to its date before the difference is
  rounded down.
\<close>

theorem just_passed:
  assumes "0 \<le> t" "t < MILLISECONDS_A_DAY"
  shows "\<not> isAfter (year_set (dayjs_ymd 1985 3 15) 2024)
             (Valid \<lparr>year = 2024, month = 2, date = 16, tod = t\<rparr>)
       \<and> year_set (dayjs_ymd 1985 3 15) (2024 + 1) = dayjs_ymd 2025 3 15
       \<and> getDaysUntilBirthday (dayjs_ymd 1985 3 15) \<lparr>year = 2024, month = 2, date = 16, tod = t\<rparr>
         = Num (if t = 0 then 364 else 363)"
proof -
  let ?now = "\<lparr>year = 2024, month = 2, date = 16, tod = t\<rparr>"
  let ?b = "\<lparr>year = 1985, month = 2, date = 15, tod = 0\<rparr>"
  have now: "valid_datetime ?now" using assms by (simp add: valid_datetime_def calendar_defs)
  have b: "valid_datetime ?b" by (simp add: valid_datetime_def calendar_defs)
  have "valueOf (set_year_fields ?b 2025) - valueOf ?now = 364 * MILLISECONDS_A_DAY - t"
    by (simp add: calendar_defs)
  moreover have na: "\<not> valueOf ?now < valueOf (set_year_fields ?b 2024)"
    using assms by (simp add: calendar_defs)
  ultimately have d: "getDaysUntilBirthday (Valid ?b) ?now = Num (if t = 0 then 364 else 363)"
    using getDaysUntilBirthday_valid [OF b now] whole_days_less [OF assms(1,2), of 364] by simp
  have "set_year_fields ?b 2025 = \<lparr>year = 2025, month = 2, date = 15, tod = 0\<rparr>"
    by (simp add: set_year_fields_def daysInMonth_def)
  then show ?thesis using d na by (simp add: dayjs_ymd_def)
qed

theorem just_passed_witness:
  "getDaysUntilBirthday (dayjs_ymd 1985 3 15)
     \<lparr>year = 2024, month = 2, date = 16, tod = 43200000\<rparr> = Num 363"
  using just_passed [of 43200000] by (simp add: MILLISECONDS_A_DAY_def)

section \<open>Upcoming birthdays\<close>

text \<open>
  C5. The window spans the end of the year: on 2024-12-20 a person born on 1990-01-05 is in
  the upcoming list at every time of the day. The days until the birthday are 16 only at
  exactly midnight; at every later instant of 2024-12-20 the function returns 15.
\<close>

theorem year_boundary:
  assumes "0 \<le> t" "t < MILLISECONDS_A_DAY" "birthday p = dayjs_ymd 1990 1 5"
  shows "getUpcomingBirthdays [p] \<lparr>year = 2024, month = 11, date = 20, tod = t\<rparr> = [p]
       \<and> getDaysUntilBirthday (birthday p) \<lparr>year = 2024, month = 11, date = 20, tod = t\<rparr>
         = Num (if t = 0 then 16 else 15)"
proof -
  let ?now = "\<lparr>year = 2024, month = 11, date = 20, tod = t\<rparr>"
  let ?b = "\<lparr>year = 1990, month = 0, date = 5, tod = 0\<rparr>"
  have now: "valid_datetime ?now" using assms by (simp add: valid_datetime_def calendar_defs)
  have b: "valid_datetime ?b" by (simp add: valid_datetime_def calendar_defs)
  have "valueOf (set_year_fields ?b 2025) - valueOf ?now = 16 * MILLISECONDS_A_DAY - t"
    by (simp add: calendar_defs)
  moreover have "\<not> valueOf ?now < valueOf (set_year_fields ?b 2024)"
    using assms by (simp add: calendar_defs)
  ultimately have d: "getDaysUntilBirthday (Valid ?b) ?now = Num (if t = 0 then 16 else 15)"
    using getDaysUntilBirthday_valid [OF b now] whole_days_less [OF assms(1,2), of 16] by simp
  then have "within_days 29 (getDaysUntilBirthday (Valid ?b) ?now)"
    by (simp add: within_days_def)
  then have "getUpcomingBirthdays [p] ?now = [p]"
    using upcoming_test [of "Valid ?b" ?now] now b assms(3)
    unfolding getUpcomingBirthdays_filter by (simp add: valid_dayjs_def dayjs_ymd_def)
  then show ?thesis using d assms(3) by (simp add: dayjs_ymd_def)
qed

theorem year_boundary_witness:
  "getUpcomingBirthdays
     [\<lparr>person_id = ''2'', name = ''Bob'', birthday = dayjs_ymd 1990 1 5, email = [],
       phone = [], person_notes = []\<rparr>]
     \<lparr>year = 2024, month = 11, date = 20, tod = 43200000\<rparr>
   = [\<lparr>person_id = ''2'', name = ''Bob'', birthday = dayjs_ymd 1990 1 5, email = [],
       phone = [], person_notes = []\<rparr>]
   \<and> getDaysUntilBirthday (dayjs_ymd 1990 1 5)
       \<lparr>year = 2024, month = 11, date = 20, tod = 43200000\<rparr> = Num 15"
  using year_boundary [of 43200000
      "\<lparr>person_id = ''2'', name = ''Bob'', birthday = dayjs_ymd 1990 1 5, email = [],
       phone = [], person_notes = []\<rparr>"]
  by (simp add: MILLISECONDS_A_DAY_def)

text \<open>
  C2, as the specification states it, fails: on 2024-03-01 at midnight Ann, born on
  1990-03-31, has exactly 30 days until her birthday and Bob, born on 1988-03-01, has his
  birthday today. The specification's \<open>upcoming\<close> with the window 30 lists both; the
  function lists neither.
\<close>

theorem upcoming_window_counterexample:
  "getUpcomingBirthdays
     [\<lparr>person_id = ''1'', name = ''Ann'', birthday = dayjs_ymd 1990 3 31, email = [],
       phone = [], person_notes = []\<rparr>,
      \<lparr>person_id = ''2'', name = ''Bob'', birthday = dayjs_ymd 1988 3 1, email = [],
       phone = [], person_notes = []\<rparr>]
     \<lparr>year = 2024, month = 2, date = 1, tod = 0\<rparr> = []
   \<and> upcoming
     [\<lparr>person_id = ''1'', name = ''Ann'', birthday = dayjs_ymd 1990 3 31, email = [],
       phone = [], person_notes = []\<rparr>,
      \<lparr>person_id = ''2'', name = ''Bob'', birthday = dayjs_ymd 1988 3 1, email = [],
       phone = [], person_notes = []\<rparr>]
     \<lparr>year = 2024, month = 2, date = 1, tod = 0\<rparr> 30
   = [\<lparr>person_id = ''1'', name = ''Ann'', birthday = dayjs_ymd 1990 3 31, email = [],
       phone = [], person_notes = []\<rparr>,
      \<lparr>person_id = ''2'', name = ''Bob'', birthday = dayjs_ymd 1988 3 1, email = [],
       phone = [], person_notes = []\<rparr>]"
  by code_simp

text \<open>
  C2, amended. The end of the window, now plus 30 days, is exclusive. Leaving aside the
  persons whose birthday is today, the upcoming list holds, in input order, exactly the
  persons whose \<open>daysUntil\<close> is from 1 to 30, a person with exactly 30 days only when
  now is not exactly midnight.
\<close>

theorem upcoming_window:
  assumes "valid_datetime now" "\<forall>p \<in> set ps. date_only (birthday p)"
  shows "filter (\<lambda>p. person_daysUntil p now \<noteq> Some 0) (getUpcomingBirthdays ps now)
       = filter (\<lambda>p. case person_daysUntil p now of
                       Some d \<Rightarrow> 1 \<le> d \<and> (d \<le> 29 \<or> (d = 30 \<and> 0 < tod now))
                     | None \<Rightarrow> False) ps"
proof -
  have "(((isAfter (year_set (birthday p) (year now)) (Valid now)
           \<and> isBefore (year_set (birthday p) (year now)) (add (Valid now) 30 Day))
          \<or> (isAfter (year_set (birthday p) (year now + 1)) (Valid now)
           \<and> isBefore (year_set (birthday p) (year now + 1)) (add (Valid now) 30 Day)))
         \<and> person_daysUntil p now \<noteq> Some 0)
       \<longleftrightarrow> (case person_daysUntil p now of
                       Some d \<Rightarrow> 1 \<le> d \<and> (d \<le> 29 \<or> (d = 30 \<and> 0 < tod now))
                     | None \<Rightarrow> False)"
    if "p \<in> set ps" for p
  proof (cases "birthday p")
    case Invalid
    then show ?thesis by (simp add: person_daysUntil_def)
  next
    case (Valid b)
    then have "valid_datetime b" "tod b = 0"
      using assms(2) that by (auto simp: date_only_def)
    then show ?thesis
      using upcoming_test_days [OF _ _ assms(1), of b] by (simp add: Valid person_daysUntil_def)
  qed
  then show ?thesis
    unfolding getUpcomingBirthdays_filter filter_filter by (intro filter_cong refl) blast
qed

theorem upcoming_window_witness:
  "filter (\<lambda>p. person_daysUntil p \<lparr>year = 2024, month = 2, date = 1, tod = 43200000\<rparr> \<noteq> Some 0)
     (getUpcomingBirthdays
       [\<lparr>person_id = ''1'', name = ''Ann'', birthday = dayjs_ymd 1990 3 31, email = [],
         phone = [], person_notes = []\<rparr>,
        \<lparr>person_id = ''2'', name = ''Bob'', birthday = dayjs_ymd 1988 3 1, email = [],
         phone = [], person_notes = []\<rparr>,
        \<lparr>person_id = ''3'', name = ''Cy'', birthday = dayjs_ymd 1975 4 15, email = [],
         phone = [], person_notes = []\<rparr>]
       \<lparr>year = 2024, month = 2, date = 1, tod = 43200000\<rparr>)
   = [\<lparr>person_id = ''1'', name = ''Ann'', birthday = dayjs_ymd 1990 3 31, email = [],
         phone = [], person_notes = []\<rparr>]"
proof -
  have "valid_datetime \<lparr>year = 2024, month = 2, date = 1, tod = 43200000\<rparr>"
    by (simp add: valid_datetime_def calendar_defs)
  moreover have "date_only (dayjs_ymd 1990 3 31)" "date_only (dayjs_ymd 1988 3 1)"
    "date_only (dayjs_ymd 1975 4 15)"
    by (simp_all add: date_only_def dayjs_ymd_def valid_datetime_def calendar_defs)
  moreover have "filter (\<lambda>p. case person_daysUntil p
                          \<lparr>year = 2024, month = 2, date = 1, tod = 43200000\<rparr> of
                       Some d \<Rightarrow> 1 \<le> d \<and> (d \<le> 29 \<or> (d = 30 \<and>
                          0 < tod \<lparr>year = 2024, month = 2, date = 1, tod = 43200000\<rparr>))
                     | None \<Rightarrow> False)
       [\<lparr>person_id = ''1'', name = ''Ann'', birthday = dayjs_ymd 1990 3 31, email = [],
         phone = [], person_notes = []\<rparr>,
        \<lparr>person_id = ''2'', name = ''Bob'', birthday = dayjs_ymd 1988 3 1, email = [],
         phone = [], person_notes = []\<rparr>,
        \<lparr>person_id = ''3'', name = ''Cy'', birthday = dayjs_ymd 1975 4 15, email = [],
         phone = [], person_notes = []\<rparr>]
     = [\<lparr>person_id = ''1'', name = ''Ann'', birthday = dayjs_ymd 1990 3 31, email = [],
         phone = [], person_notes = []\<rparr>]"
    by code_simp
  ultimately show ?thesis
    using upcoming_window [of "\<lparr>year = 2024, month = 2, date = 1, tod = 43200000\<rparr>"
       "[\<lparr>person_id = ''1'', name = ''Ann'', birthday = dayjs_ymd 1990 3 31, email = [],
         phone = [], person_notes = []\<rparr>,
        \<lparr>person_id = ''2'', name = ''Bob'', birthday = dayjs_ymd 1988 3 1, email = [],
         phone = [], person_notes = []\<rparr>,
        \<lparr>person_id = ''3'', name = ''Cy'', birthday = dayjs_ymd 1975 4 15, email = [],
         phone = [], person_notes = []\<rparr>]"]
    by simp
qed

text \<open>
  C8, as the specification states it, fails for a window other than 30, because the
  function has no window parameter: on 2024-03-01 a person born on 1980-03-21 is in the
  list with 20 days until the birthday, more than a window of 10.
\<close>

theorem upcoming_stable_filter_counterexample:
  "getUpcomingBirthdays
     [\<lparr>person_id = ''4'', name = ''Dan'', birthday = dayjs_ymd 1980 3 21, email = [],
       phone = [], person_notes = []\<rparr>]
     \<lparr>year = 2024, month = 2, date = 1, tod = 0\<rparr>
   = [\<lparr>person_id = ''4'', name = ''Dan'', birthday = dayjs_ymd 1980 3 21, email = [],
       phone = [], person_notes = []\<rparr>]
   \<and> \<not> daysUntil \<lparr>year = 1980, month = 2, date = 21, tod = 0\<rparr>
          \<lparr>year = 2024, month = 2, date = 1, tod = 0\<rparr> \<le> 10
   \<and> getDaysUntilBirthday (dayjs_ymd 1980 3 21) \<lparr>year = 2024, month = 2, date = 1, tod = 0\<rparr>
      = Num 20"
  by code_simp

text \<open>
  C8, amended: with the window fixed at 30 days. The upcoming list is a subsequence of the
  input list: every person in it is in the input, in the input's order. Every person in it
  has at most 30 days until the birthday, as the specification counts them and as
  \<open>getDaysUntilBirthday\<close> counts them.
\<close>

theorem upcoming_stable_filter:
  assumes "valid_datetime now" "\<forall>p \<in> set ps. valid_dayjs (birthday p)"
  shows "subseq (getUpcomingBirthdays ps now) ps
       \<and> (\<forall>p \<in> set (getUpcomingBirthdays ps now).
            (\<exists>d. getDaysUntilBirthday (birthday p) now = Num d \<and> d \<le> 30)
            \<and> (\<exists>d. person_daysUntil p now = Some d \<and> d \<le> 30))"
proof
  show "subseq (getUpcomingBirthdays ps now) ps"
    unfolding getUpcomingBirthdays_filter by simp
  show "\<forall>p \<in> set (getUpcomingBirthdays ps now).
            (\<exists>d. getDaysUntilBirthday (birthday p) now = Num d \<and> d \<le> 30)
            \<and> (\<exists>d. person_daysUntil p now = Some d \<and> d \<le> 30)"
  proof
    fix p assume p: "p \<in> set (getUpcomingBirthdays ps now)"
    then have ps: "p \<in> set ps" unfolding getUpcomingBirthdays_filter by simp
    then have v: "valid_dayjs (birthday p)" using assms(2) by simp
    then have "within_days 29 (getDaysUntilBirthday (birthday p) now)"
      using p upcoming_test [OF _ assms(1), of "birthday p"]
      unfolding getUpcomingBirthdays_filter by simp
    then have one: "\<exists>d. getDaysUntilBirthday (birthday p) now = Num d \<and> d \<le> 30"
      by (auto simp: within_days_def split: jsnum.splits)
    obtain b where b: "birthday p = Valid b"
      using upcoming_never_invalid [OF p] by (cases "birthday p") simp_all
    then have "valid_datetime b" using v by (simp add: valid_dayjs_def)
    then have "daysUntil b now \<le> 30"
      using p assms(1) unfolding getUpcomingBirthdays_filter b [symmetric]
      by (intro upcoming_days_bound) (simp_all add: b)
    then have "\<exists>d. person_daysUntil p now = Some d \<and> d \<le> 30"
      by (simp add: person_daysUntil_def b)
    with one show "(\<exists>d. getDaysUntilBirthday (birthday p) now = Num d \<and> d \<le> 30)
            \<and> (\<exists>d. person_daysUntil p now = Some d \<and> d \<le> 30)" by blast
  qed
qed

theorem upcoming_stable_filter_witness:
  "subseq (getUpcomingBirthdays
     [\<lparr>person_id = ''1'', name = ''Ann'', birthday = dayjs_ymd 1990 3 31, email = [],
       phone = [], person_notes = []\<rparr>,
      \<lparr>person_id = ''2'', name = ''Bob'', birthday = dayjs_ymd 1990 3 5, email = [],
       phone = [], person_notes = []\<rparr>]
     \<lparr>year = 2024, month = 2, date = 1, tod = 43200000\<rparr>)
     [\<lparr>person_id = ''1'', name = ''Ann'', birthday = dayjs_ymd 1990 3 31, email = [],
       phone = [], person_notes = []\<rparr>,
      \<lparr>person_id = ''2'', name = ''Bob'', birthday = dayjs_ymd 1990 3 5, email = [],
       phone = [], person_notes = []\<rparr>]
   \<and> (\<exists>d. getDaysUntilBirthday (dayjs_ymd 1990 3 31) \<lparr>year = 2024, month = 2, date = 1, tod = 43200000\<rparr>
          = Num d \<and> d \<le> 30)
   \<and> (\<exists>d. person_daysUntil
          \<lparr>person_id = ''1'', name = ''Ann'', birthday = dayjs_ymd 1990 3 31, email = [],
       phone = [], person_notes = []\<rparr>
          \<lparr>year = 2024, month = 2, date = 1, tod = 43200000\<rparr> = Some d \<and> d \<le> 30)"
proof -
  have now: "valid_datetime \<lparr>year = 2024, month = 2, date = 1, tod = 43200000\<rparr>"
    by (simp add: valid_datetime_def calendar_defs)
  have "valid_dayjs (dayjs_ymd 1990 3 31)" "valid_dayjs (dayjs_ymd 1990 3 5)"
    by (simp_all add: valid_dayjs_def dayjs_ymd_def valid_datetime_def calendar_defs)
  then have all: "\<forall>p \<in> set
     [\<lparr>person_id = ''1'', name = ''Ann'', birthday = dayjs_ymd 1990 3 31, email = [],
       phone = [], person_notes = []\<rparr>,
      \<lparr>person_id = ''2'', name = ''Bob'', birthday = dayjs_ymd 1990 3 5, email = [],
       phone = [], person_notes = []\<rparr>].
       valid_dayjs (birthday p)"
    by simp
  have "\<lparr>person_id = ''1'', name = ''Ann'', birthday = dayjs_ymd 1990 3 31, email = [],
       phone = [], person_notes = []\<rparr>
      \<in> set (getUpcomingBirthdays
     [\<lparr>person_id = ''1'', name = ''Ann'', birthday = dayjs_ymd 1990 3 31, email = [],
       phone = [], person_notes = []\<rparr>,
      \<lparr>person_id = ''2'', name = ''Bob'', birthday = dayjs_ymd 1990 3 5, email = [],
       phone = [], person_notes = []\<rparr>]
     \<lparr>year = 2024, month = 2, date = 1, tod = 43200000\<rparr>)"
    by code_simp
  then show ?thesis using upcoming_stable_filter [OF now all] by fastforce
qed

section \<open>Age\<close>

text \<open>
  C7, as the specification states it, fails for a birthday on 29 February: on 2023-02-28
  the month and day of the clock precede those of the birthday 2000-02-29, so the stated
  rule gives 22, and \<open>calculateAge\<close> returns 23.
\<close>

theorem calculateAge_counterexample:
  "calculateAge (dayjs_ymd 2000 2 29) \<lparr>year = 2023, month = 1, date = 28, tod = 43200000\<rparr>
   \<noteq> Num (completed_birthdays \<lparr>year = 2000, month = 1, date = 29, tod = 0\<rparr>
            \<lparr>year = 2023, month = 1, date = 28, tod = 43200000\<rparr>)"
  by code_simp

text \<open>
  C7, amended. For a valid date-only birthday that is not later than the clock,
  \<open>calculateAge\<close> is the difference of the years, less one when the month and day of the
  clock precede the birthday's occurrence in the clock's year; the day of that occurrence
  is clamped to the length of the month, so a birthday on 29 February occurs on 28 February
  in a year that is not a leap year. Whenever the day of the birthday exists in the clock's
  year, this is the rule as the specification states it.
\<close>

theorem calculateAge_completed:
  assumes "valid_datetime b" "tod b = 0" "valid_datetime now" "valueOf b \<le> valueOf now"
  shows "calculateAge (Valid b) now
         = Num (completed_birthdays
                  (b\<lparr>date := min (date b) (daysInMonth (year now) (month b))\<rparr>) now)
       \<and> (date b \<le> daysInMonth (year now) (month b)
            \<longrightarrow> calculateAge (Valid b) now = Num (completed_birthdays b now))"
  using calculateAge_value [OF assms] by (simp add: completed_birthdays_def min_def)

theorem calculateAge_completed_witness:
  "calculateAge (dayjs_ymd 1985 3 15) \<lparr>year = 2024, month = 2, date = 15, tod = 0\<rparr> = Num 39"
proof -
  have "valid_datetime \<lparr>year = 1985, month = 2, date = 15, tod = 0\<rparr>"
    "valid_datetime \<lparr>year = 2024, month = 2, date = 15, tod = 0\<rparr>"
    by (simp_all add: valid_datetime_def calendar_defs)
  moreover have "valueOf \<lparr>year = 1985, month = 2, date = 15, tod = 0\<rparr>
      \<le> valueOf \<lparr>year = 2024, month = 2, date = 15, tod = 0\<rparr>"
    by (simp add: calendar_defs)
  ultimately show ?thesis
    using calculateAge_completed [of "\<lparr>year = 1985, month = 2, date = 15, tod = 0\<rparr>"
        "\<lparr>year = 2024, month = 2, date = 15, tod = 0\<rparr>"]
    by (simp add: dayjs_ymd_def completed_birthdays_def month_day_precedes_def daysInMonth_def)
qed

text \<open>
  C4. For a birthday on 29 February and a clock in a year that is not a leap year there is
  one rule, that of the year setter: the occurrence is 28 February. The days until the
  birthday and the upcoming test are computed from that occurrence, and the age counts the
  same day: it is one less exactly while the clock is before 28 February.
\<close>

theorem leap_day_rule:
  assumes "isLeapYear yb" "\<not> isLeapYear (year now)" "valid_datetime now"
    and "b = \<lparr>year = yb, month = 1, date = 29, tod = 0\<rparr>"
    and "valueOf b \<le> valueOf now" "birthday p = Valid b"
  shows "year_set (Valid b) (year now) = dayjs_ymd (year now) 2 28
       \<and> calculateAge (Valid b) now
         = Num (year now - yb
                - (if month_day_precedes (month now, date now) (1, 28) then 1 else 0))
       \<and> getDaysUntilBirthday (Valid b) now
         = (if isAfter (dayjs_ymd (year now) 2 28) (Valid now)
            then diff (dayjs_ymd (year now) 2 28) (Valid now) Day
            else diff (year_set (Valid b) (year now + 1)) (Valid now) Day)
       \<and> getUpcomingBirthdays [p] now
         = (if (isAfter (dayjs_ymd (year now) 2 28) (Valid now)
                \<and> isBefore (dayjs_ymd (year now) 2 28) (add (Valid now) 30 Day))
               \<or> (isAfter (year_set (Valid b) (year now + 1)) (Valid now)
                \<and> isBefore (year_set (Valid b) (year now + 1)) (add (Valid now) 30 Day))
            then [p] else [])"
proof -
  have vb: "valid_datetime b" using assms(1,4) by (simp add: valid_datetime_def daysInMonth_def MILLISECONDS_A_DAY_def)
  have occ: "year_set (Valid b) (year now) = dayjs_ymd (year now) 2 28"
    using assms(2,4) by (simp add: set_year_fields_def daysInMonth_def dayjs_ymd_def)
  have "calculateAge (Valid b) now
         = Num (year now - yb
                - (if month_day_precedes (month now, date now) (1, 28) then 1 else 0))"
    using calculateAge_value [OF vb _ assms(3,5)] assms(2,4) by (simp add: daysInMonth_def)
  then show ?thesis
    using occ assms(6) unfolding getUpcomingBirthdays_filter getDaysUntilBirthday_def Let_def
    by simp
qed

theorem leap_day_rule_witness:
  "year_set (dayjs_ymd 2000 2 29) 2023 = dayjs_ymd 2023 2 28
   \<and> calculateAge (dayjs_ymd 2000 2 29) \<lparr>year = 2023, month = 2, date = 1, tod = 0\<rparr> = Num 23"
proof -
  have "isLeapYear 2000" "\<not> isLeapYear 2023"
    "valid_datetime \<lparr>year = 2023, month = 2, date = 1, tod = 0\<rparr>"
    by (simp_all add: valid_datetime_def calendar_defs)
  moreover have "valueOf \<lparr>year = 2000, month = 1, date = 29, tod = 0\<rparr>
      \<le> valueOf \<lparr>year = 2023, month = 2, date = 1, tod = 0\<rparr>"
    by (simp add: calendar_defs)
  ultimately show ?thesis
    using leap_day_rule [of 2000 "\<lparr>year = 2023, month = 2, date = 1, tod = 0\<rparr>"
        "\<lparr>year = 2000, month = 1, date = 29, tod = 0\<rparr>"
        "\<lparr>person_id = ''3'', name = ''Cy'', birthday = dayjs_ymd 2000 2 29, email = [],
          phone = [], person_notes = []\<rparr>"]
    by (simp add: dayjs_ymd_def month_day_precedes_def)
qed

section \<open>Errors\<close>

text \<open>
  C3, as the specification states it, fails: for the birthday 2030-01-01 and the clock
  2024-03-15, a birthday later than now, \<open>calculateAge\<close> raises nothing and returns -5.
\<close>

theorem never_raises_counterexample:
  "calculateAge_call (dayjs_ymd 2030 1 1) \<lparr>year = 2024, month = 2, date = 15, tod = 43200000\<rparr>
     = Inr (Num (- 5))
   \<and> calculateAge_call (dayjs_ymd 2030 1 1) \<lparr>year = 2024, month = 2, date = 15, tod = 43200000\<rparr>
     \<noteq> Inl InvalidDateError"
  by code_simp

text \<open>
  C3, amended. No call of the date functions raises an error; every call returns a value,
  and a malformed date is silently given a result. For a date string that does not parse,
  \<open>calculateAge\<close> returns 0, \<open>getDaysUntilBirthday\<close> returns NaN and the upcoming list
  leaves the person out and is otherwise as without that person. A YYYY-MM-DD string whose
  month or day is out of range is coerced to a valid date at midnight, by rolling over:
  2023-02-30 becomes 2023-03-02. For a valid birthday later than the clock,
  \<open>calculateAge\<close> returns a number that is zero or negative, namely the difference of
  the years or that difference plus one. For every valid birthday, later than the clock or
  not, \<open>getDaysUntilBirthday\<close> returns the whole days from the clock to this year's
  occurrence of the month and day when that is after the clock, and to next year's
  otherwise.
\<close>

theorem never_raises:
  "calculateAge_call Invalid now = Inr (Num 0)
   \<and> getDaysUntilBirthday_call Invalid now = Inr NaN
   \<and> getUpcomingBirthdays_call ps now
       = Inr (getUpcomingBirthdays (filter (\<lambda>p. birthday p \<noteq> Invalid) ps) now)
   \<and> (\<forall>p \<in> set (getUpcomingBirthdays ps now). birthday p \<noteq> Invalid)
   \<and> (0 \<le> d \<longrightarrow> (\<exists>c. dayjs_parse y m d = Valid c \<and> valid_datetime c \<and> tod c = 0))
   \<and> dayjs_parse 2023 2 30 = dayjs_ymd 2023 3 2
   \<and> (valid_datetime t \<and> valid_datetime now \<and> valueOf now < valueOf t
        \<longrightarrow> (\<exists>a. calculateAge_call (Valid t) now = Inr (Num a) \<and> a \<le> 0
                 \<and> year now - year t \<le> a \<and> a \<le> year now - year t + 1))
   \<and> (valid_datetime t \<and> valid_datetime now
        \<longrightarrow> getDaysUntilBirthday_call (Valid t) now
            = Inr (Num ((valueOf (if valueOf now < valueOf (set_year_fields t (year now))
                                  then set_year_fields t (year now)
                                  else set_year_fields t (year now + 1)) - valueOf now)
                        div MILLISECONDS_A_DAY)))"
proof -
  have inv: "calculateAge_call Invalid now = Inr (Num 0)"
    "getDaysUntilBirthday_call Invalid now = Inr NaN"
    by (simp_all add: calculateAge_call_def calculateAge_def getDaysUntilBirthday_call_def
        getDaysUntilBirthday_def)
  have "filter (\<lambda>p. (isAfter (year_set (birthday p) (year now)) (Valid now)
           \<and> isBefore (year_set (birthday p) (year now)) (add (Valid now) 30 Day))
          \<or> (isAfter (year_set (birthday p) (year now + 1)) (Valid now)
           \<and> isBefore (year_set (birthday p) (year now + 1)) (add (Valid now) 30 Day)))
        (filter (\<lambda>p. birthday p \<noteq> Invalid) ps)
      = filter (\<lambda>p. (isAfter (year_set (birthday p) (year now)) (Valid now)
           \<and> isBefore (year_set (birthday p) (year now)) (add (Valid now) 30 Day))
          \<or> (isAfter (year_set (birthday p) (year now + 1)) (Valid now)
           \<and> isBefore (year_set (birthday p) (year now + 1)) (add (Valid now) 30 Day))) ps"
    unfolding filter_filter by (intro filter_cong refl) auto
  then have lst: "getUpcomingBirthdays_call ps now
       = Inr (getUpcomingBirthdays (filter (\<lambda>p. birthday p \<noteq> Invalid) ps) now)"
    by (simp add: getUpcomingBirthdays_call_def getUpcomingBirthdays_filter)
  have out: "\<forall>p \<in> set (getUpcomingBirthdays ps now). birthday p \<noteq> Invalid"
    using upcoming_never_invalid by blast
  have prs: "0 \<le> d \<longrightarrow> (\<exists>c. dayjs_parse y m d = Valid c \<and> valid_datetime c \<and> tod c = 0)"
    using dayjs_parse_valid by blast
  have ex: "dayjs_parse 2023 2 30 = dayjs_ymd 2023 3 2" by code_simp
  have age: "valid_datetime t \<and> valid_datetime now \<and> valueOf now < valueOf t
        \<longrightarrow> (\<exists>a. calculateAge_call (Valid t) now = Inr (Num a) \<and> a \<le> 0
                 \<and> year now - year t \<le> a \<and> a \<le> year now - year t + 1)"
    using calculateAge_future [of t now] by (simp add: calculateAge_call_def)
  have days: "valid_datetime t \<and> valid_datetime now
        \<longrightarrow> getDaysUntilBirthday_call (Valid t) now
            = Inr (Num ((valueOf (if valueOf now < valueOf (set_year_fields t (year now))
                                  then set_year_fields t (year now)
                                  else set_year_fields t (year now + 1)) - valueOf now)
                        div MILLISECONDS_A_DAY))"
    using getDaysUntilBirthday_valid [of t now] by (simp add: getDaysUntilBirthday_call_def)
  show ?thesis using inv lst out prs ex age days by blast
qed

theorem never_raises_witness:
  "(\<exists>a. calculateAge_call (dayjs_ymd 2030 1 1)
          \<lparr>year = 2024, month = 2, date = 15, tod = 43200000\<rparr> = Inr (Num a)
        \<and> a \<le> 0 \<and> - 6 \<le> a \<and> a \<le> - 5)
   \<and> (\<exists>c. dayjs_parse 2023 2 30 = Valid c \<and> valid_datetime c \<and> tod c = 0)
   \<and> getUpcomingBirthdays
        [\<lparr>person_id = ''5'', name = ''Eve'', birthday = Invalid, email = [],
          phone = [], person_notes = []\<rparr>]
        \<lparr>year = 2024, month = 2, date = 15, tod = 43200000\<rparr> = []"
proof -
  have "valid_datetime \<lparr>year = 2030, month = 0, date = 1, tod = 0\<rparr>"
    "valid_datetime \<lparr>year = 2024, month = 2, date = 15, tod = 43200000\<rparr>"
    "valid_datetime \<lparr>year = 2023, month = 2, date = 2, tod = 0\<rparr>"
    by (simp_all add: valid_datetime_def calendar_defs)
  moreover have "valueOf \<lparr>year = 2024, month = 2, date = 15, tod = 43200000\<rparr>
      < valueOf \<lparr>year = 2030, month = 0, date = 1, tod = 0\<rparr>"
    by (simp add: calendar_defs)
  moreover have "(0::int) \<le> 30" by simp
  ultimately show ?thesis
    using never_raises [of "\<lparr>year = 2024, month = 2, date = 15, tod = 43200000\<rparr>"
        "[\<lparr>person_id = ''5'', name = ''Eve'', birthday = Invalid, email = [],
          phone = [], person_notes = []\<rparr>]"
        30 2023 2 "\<lparr>year = 2030, month = 0, date = 1, tod = 0\<rparr>"]
    by (simp add: dayjs_ymd_def getUpcomingBirthdays_call_def getUpcomingBirthdays_filter)
qed

end
